theory Spec2Isabelle
  imports Main
begin

section \<open>The event hub of lib/ui.js\<close>

text \<open>
  The module \<^verbatim>\<open>lib/ui.js\<close> exports one instance of the class \<^verbatim>\<open>UI\<close>. The class keeps
  its state in fields (\<^verbatim>\<open>emitter\<close>, \<^verbatim>\<open>disposables\<close>, \<^verbatim>\<open>projects\<close>, \<^verbatim>\<open>lightTheme\<close>,
  \<^verbatim>\<open>restoreOffset\<close>) and in the module variable \<^verbatim>\<open>delayNext\<close>. The objects the fields
  refer to are shared with closures (a disposal callback keeps the emitter it was
  made by, a waiter's listeners keep their scope), so objects live in explicit stores
  and are named by their index there. A new object is appended to its store, which
  makes its reference fresh.
\<close>

subsection \<open>Values, handlers and objects\<close>

type_synonym ref = nat

text \<open>
  \<^verbatim>\<open>TypeError\<close>: a property read on \<^verbatim>\<open>null\<close> or \<^verbatim>\<open>undefined\<close>.
  \<^verbatim>\<open>EmitterDisposed\<close>: the error \<^verbatim>\<open>Emitter.on\<close> raises on a disposed emitter.
\<close>

datatype error = TypeError | EmitterDisposed

text \<open>
  The values handed to handlers: \<^verbatim>\<open>undefined\<close>, a boolean, a string, the object
  \<^verbatim>\<open>{from, to}\<close> of \<^verbatim>\<open>setProjects\<close>, and any other host object by a number.
\<close>

datatype val =
    VUndefined
  | VBool bool
  | VStr string
  | VChange "string list" "string list"
  | VObj nat

text \<open>
  The functions registered on an emitter. \<open>Fn n\<close> is a subscriber's own function,
  known by its identity \<open>n\<close> only: calling it is recorded in the trace and has no
  other effect on the hub. The other three are the closures \<^verbatim>\<open>ui.js\<close> builds:
  \<^item> \<open>Deferred h\<close> is \<^verbatim>\<open>function(...args){ setImmediate(() => originalHandler.call(this, ...args)) }\<close>
    of \<^verbatim>\<open>subscribe\<close>;
  \<^item> \<open>ScopeDispose cd\<close> is \<^verbatim>\<open>_=> cd.dispose()\<close> of \<^verbatim>\<open>waitToSave\<close>;
  \<^item> \<open>SaveResolve cd p\<close> is \<^verbatim>\<open>file => { cd.dispose(); resolve(file) }\<close> of
    \<^verbatim>\<open>waitToSave\<close>, where \<open>p\<close> is the promise \<^verbatim>\<open>resolve\<close> belongs to.
\<close>

datatype handler =
    Fn nat
  | Deferred handler
  | ScopeDispose ref
  | SaveResolve ref ref

text \<open>
  The disposal callbacks:
  \<^item> \<open>Nop\<close> is \<^verbatim>\<open>() => {}\<close> of \<^verbatim>\<open>subscribe\<close> on a hub without emitter;
  \<^item> \<open>Off e n h\<close> is the callback of the handle \<^verbatim>\<open>Emitter.on\<close> returns;
  \<^item> \<open>RestoreTop r v\<close> is \<^verbatim>\<open>_=> rule.style.top = offset\<close> of \<^verbatim>\<open>fixOffset\<close>;
  \<^item> \<open>Detach cd\<close> is \<^verbatim>\<open>_=> this.disposables.remove(cd)\<close> of \<^verbatim>\<open>waitToSave\<close>;
  \<^item> \<open>HostOff n\<close> is a subscription handle of the host editor (\<^verbatim>\<open>atom.project\<close>,
    \<^verbatim>\<open>atom.themes\<close>), whose disposal does not touch the hub.
\<close>

datatype action =
    Nop
  | Off ref string handler
  | RestoreTop ref string
  | Detach ref
  | HostOff nat

text \<open>
  Modelled from the spec: the classes \<^verbatim>\<open>Disposable\<close>, \<^verbatim>\<open>CompositeDisposable\<close> and
  \<^verbatim>\<open>Emitter\<close> are imported from the host package \<^verbatim>\<open>atom\<close> and are not part of the
  repository. They are modelled as the spec's data model describes them
  (SubscriptionHandle, DisposableSet, EventHub), following the host library:
  a \<^verbatim>\<open>Disposable\<close> holds the flag \<^verbatim>\<open>disposed\<close> and its callback (\<^verbatim>\<open>null\<close> once
  disposed); a \<^verbatim>\<open>CompositeDisposable\<close> holds the flag and its members, a set kept
  in insertion order; an \<^verbatim>\<open>Emitter\<close> holds the flag and the handlers of every event
  name in registration order (the empty list where the name has no entry).
\<close>

datatype dobj =
    Disposable bool "action option"
  | Composite bool "ref list"

record emitter_obj =
  e_disposed :: bool
  handlersByEventName :: "string \<Rightarrow> handler list"

datatype promise = Pending | Resolved val | Rejected error

text \<open>
  A rule of a style sheet: \<^verbatim>\<open>selectorText\<close> (\<open>None\<close> for a rule that has none, such
  as a media rule), \<^verbatim>\<open>cssText\<close> and \<^verbatim>\<open>style.top\<close> (the empty string when unset).
  A style sheet: \<^verbatim>\<open>ownerNode.sourcePath\<close> (\<open>None\<close> when the sheet has no owner node
  or the node no such property) and the rules of \<^verbatim>\<open>cssRules\<close>.
\<close>

record cssrule =
  selectorText :: "string option"
  cssText :: string
  styleTop :: string

record sheet =
  sourcePath :: "string option"
  cssRules :: "ref list"

text \<open>
  What an observer sees: \<open>Emit n args\<close> is a call \<^verbatim>\<open>this.emit(n, args)\<close> of the hub,
  \<open>Call n v\<close> is a call of the subscriber function \<open>n\<close> with the value \<open>v\<close>.
\<close>

datatype event = Emit string "val list" | Call nat val

text \<open>
  The state: the module variable, the fields of the instance (\<open>None\<close> is
  \<^verbatim>\<open>undefined\<close>), the stores, the host's document (\<^verbatim>\<open>document.styleSheets\<close>), the tasks
  given to \<^verbatim>\<open>setImmediate\<close> in the order they were given, and the trace.
  Beside the trace, \<open>seen\<close> holds for every call of \<^verbatim>\<open>emit\<close> the values the fields
  \<^verbatim>\<open>projects\<close> and \<^verbatim>\<open>lightTheme\<close> have when the call is made: what a handler called by
  this \<^verbatim>\<open>emit\<close> finds when it reads them.

  Two host computations are fields as well.
  \<open>stylePath f\<close> is \<^verbatim>\<open>join(atom.packages.loadedPackages["file-icons"].path, "styles", f)\<close>,
  \<open>None\<close> when the package has no entry (the property read raises).
  Modelled from the spec: \<^verbatim>\<open>rgbToHSL\<close> of \<^verbatim>\<open>lib/utils/general.js\<close> is not among the
  sources; \<open>isLight c\<close> stands for \<^verbatim>\<open>rgbToHSL(c.map(Number))[2] >= .5\<close> on the matched
  number strings \<open>c\<close>, the "boolean brightness flag derived from an external colour
  sample".
\<close>

record world =
  delayNext :: bool
  emitter :: "ref option"
  disposables :: "ref option"
  projects :: "string list option"
  lightTheme :: "bool option"
  restoreOffset :: "ref option"
  emitters :: "emitter_obj list"
  disps :: "dobj list"
  promises :: "promise list"
  rules :: "cssrule list"
  styleSheets :: "sheet list"
  stylePath :: "string \<Rightarrow> string option"
  isLight :: "string list \<Rightarrow> bool"
  queue :: "(handler \<times> val) list"
  trace :: "event list"
  seen :: "(string list option \<times> bool option) list"

definition lookup :: "'a list \<Rightarrow> nat \<Rightarrow> 'a option" where
  "lookup xs i = (if i < length xs then Some (xs ! i) else None)"

subsection \<open>The host library: Emitter, Disposable, CompositeDisposable\<close>

text \<open>\<^verbatim>\<open>new Disposable(action)\<close>: the new object's reference and the state.\<close>

definition newDisposable :: "action \<Rightarrow> world \<Rightarrow> ref \<times> world" where
  "newDisposable a w =
     (length (disps w), w\<lparr>disps := disps w @ [Disposable False (Some a)]\<rparr>)"

text \<open>
  \<^verbatim>\<open>Emitter.off(eventName, handler)\<close>: nothing on a disposed emitter, otherwise the
  first occurrence of the handler leaves the list.
\<close>

definition emitter_off :: "ref \<Rightarrow> string \<Rightarrow> handler \<Rightarrow> world \<Rightarrow> world" where
  "emitter_off e n h w =
     (case lookup (emitters w) e of
        None \<Rightarrow> w
      | Some eo \<Rightarrow>
          if e_disposed eo then w
          else w\<lparr>emitters := (emitters w)[e := eo\<lparr>handlersByEventName :=
                 (handlersByEventName eo)(n := remove1 h (handlersByEventName eo n))\<rparr>]\<rparr>)"

text \<open>
  \<^verbatim>\<open>Emitter.on(eventName, handler)\<close>: raises on a disposed emitter; otherwise appends the
  handler and returns a new \<^verbatim>\<open>Disposable\<close> that calls \<^verbatim>\<open>off\<close>.
\<close>

definition emitter_on :: "ref \<Rightarrow> string \<Rightarrow> handler \<Rightarrow> world \<Rightarrow> (error + ref) \<times> world" where
  "emitter_on e n h w =
     (case lookup (emitters w) e of
        None \<Rightarrow> (Inl TypeError, w)
      | Some eo \<Rightarrow>
          if e_disposed eo then (Inl EmitterDisposed, w)
          else
            (let w1 = w\<lparr>emitters := (emitters w)[e := eo\<lparr>handlersByEventName :=
                        (handlersByEventName eo)(n := handlersByEventName eo n @ [h])\<rparr>]\<rparr>;
                 (d, w2) = newDisposable (Off e n h) w1
             in (Inr d, w2)))"

text \<open>\<^verbatim>\<open>Emitter.dispose()\<close>: drops every handler and sets the flag.\<close>

definition emitter_dispose :: "ref \<Rightarrow> world \<Rightarrow> world" where
  "emitter_dispose e w =
     (case lookup (emitters w) e of
        None \<Rightarrow> w
      | Some eo \<Rightarrow>
          w\<lparr>emitters := (emitters w)[e := \<lparr>e_disposed = True, handlersByEventName = (\<lambda>_. [])\<rparr>]\<rparr>)"

text \<open>
  \<^verbatim>\<open>CompositeDisposable.add(d)\<close> and \<^verbatim>\<open>remove(d)\<close>: both do nothing on a disposed
  set. The members are a set: adding a member twice keeps one entry.
\<close>

definition cd_add :: "ref \<Rightarrow> ref \<Rightarrow> world \<Rightarrow> world" where
  "cd_add c d w =
     (case lookup (disps w) c of
        Some (Composite False ms) \<Rightarrow>
          w\<lparr>disps := (disps w)[c := Composite False (if d \<in> set ms then ms else ms @ [d])]\<rparr>
      | _ \<Rightarrow> w)"

definition cd_remove :: "ref \<Rightarrow> ref \<Rightarrow> world \<Rightarrow> world" where
  "cd_remove c d w =
     (case lookup (disps w) c of
        Some (Composite False ms) \<Rightarrow> w\<lparr>disps := (disps w)[c := Composite False (removeAll d ms)]\<rparr>
      | _ \<Rightarrow> w)"

text \<open>
  Running a disposal callback. \<open>Detach cd\<close> reads \<^verbatim>\<open>this.disposables\<close> when it runs,
  not when it was made. (The field is set by the constructor before any waiter
  exists, so the callback never finds it undefined.)
\<close>

fun act :: "action \<Rightarrow> world \<Rightarrow> world" where
  "act Nop w = w"
| "act (Off e n h) w = emitter_off e n h w"
| "act (RestoreTop r v) w =
     (case lookup (rules w) r of
        None \<Rightarrow> w
      | Some rl \<Rightarrow> w\<lparr>rules := (rules w)[r := rl\<lparr>styleTop := v\<rparr>]\<rparr>)"
| "act (Detach cd) w =
     (case disposables w of None \<Rightarrow> w | Some d \<Rightarrow> cd_remove d cd w)"
| "act (HostOff n) w = w"

text \<open>
  \<^verbatim>\<open>dispose()\<close> of a \<^verbatim>\<open>Disposable\<close> sets the flag, runs the callback and drops it;
  done twice, the second does nothing. \<^verbatim>\<open>dispose()\<close> of a \<^verbatim>\<open>CompositeDisposable\<close> sets
  the flag, disposes every member in turn and then drops the members. The calls
  still to be made are kept in a list: \<open>Dispose r\<close> is a call \<^verbatim>\<open>r.dispose()\<close>,
  \<open>Clear r\<close> is the final \<^verbatim>\<open>this.disposables = null\<close> of the set \<open>r\<close>.
\<close>

datatype work = Dispose ref | Clear ref

fun live :: "dobj \<Rightarrow> bool" where
  "live (Disposable b a) = (\<not> b)"
| "live (Composite b ms) = (\<not> b)"

definition undisposed :: "world \<Rightarrow> nat" where
  "undisposed w = length (filter live (disps w))"

function run :: "work list \<Rightarrow> world \<Rightarrow> world" where
  "run [] w = w"
| "run (Dispose r # k) w =
     (case lookup (disps w) r of
        Some (Disposable False a) \<Rightarrow>
          (let w1 = w\<lparr>disps := (disps w)[r := Disposable True a]\<rparr>;
               w2 = (case a of None \<Rightarrow> w1 | Some f \<Rightarrow> act f w1)
           in run k (w2\<lparr>disps := (disps w2)[r := Disposable True None]\<rparr>))
      | Some (Composite False ms) \<Rightarrow>
          run (map Dispose ms @ Clear r # k) (w\<lparr>disps := (disps w)[r := Composite True ms]\<rparr>)
      | _ \<Rightarrow> run k w)"
| "run (Clear r # k) w = run k (w\<lparr>disps := (disps w)[r := Composite True []]\<rparr>)"
  by pat_completeness auto
termination
proof (relation "measures [\<lambda>(k, w). undisposed w, \<lambda>(k, w). length k]", goal_cases)
  have same: "length (filter P (xs[i := v])) = length (filter P xs)"
    if "P (xs ! i) = P v" for P :: "dobj \<Rightarrow> bool" and xs i v
    using that by (induction xs arbitrary: i) (auto split: nat.splits)
  have le: "length (filter P (xs[i := v])) \<le> length (filter P xs)"
    if "\<not> P v" for P :: "dobj \<Rightarrow> bool" and xs i v
    using that by (induction xs arbitrary: i) (auto split: nat.splits simp: le_SucI)
  have less: "length (filter P (xs[i := v])) < length (filter P xs)"
    if "i < length xs" "P (xs ! i)" "\<not> P v" for P :: "dobj \<Rightarrow> bool" and xs i v
    using that
  proof (induction xs arbitrary: i)
    case Nil
    then show ?case by simp
  next
    case (Cons a xs)
    show ?case
    proof (cases i)
      case 0
      with Cons.prems show ?thesis by (simp add: less_Suc_eq_le)
    next
      case (Suc j)
      with Cons.prems Cons.IH[of j] show ?thesis by simp
    qed
  qed
  have act_same: "undisposed (act f w) = undisposed w" for f w
    by (cases f)
       (auto simp: undisposed_def emitter_off_def cd_remove_def lookup_def same
             split: option.splits dobj.splits bool.splits if_splits)
  have mark: "undisposed (w\<lparr>disps := (disps w)[r := v]\<rparr>) < undisposed w"
    if "lookup (disps w) r = Some x" "live x" "\<not> live v" for w :: world and r x v
    using that by (auto simp: undisposed_def lookup_def less split: if_splits)
  have drop: "undisposed (w\<lparr>disps := (disps w)[r := v]\<rparr>) \<le> undisposed w"
    if "\<not> live v" for w :: world and r v
    using that by (simp add: undisposed_def le)
  {
    case 1
    show ?case by simp
  next
    case (2 r k w)
    show ?case by simp
  next
    case (3 r k w x2 x11 x12)
    show ?case by simp
  next
    case (4 r k w x2 x11 a w1 w2)
    have "undisposed w1 < undisposed w"
      using 4 mark[of w r x2 "Disposable True a"] by simp
    moreover have "undisposed w2 = undisposed w1"
      using 4 act_same by (cases a) simp_all
    moreover have "undisposed (w2\<lparr>disps := (disps w2)[r := Disposable True None]\<rparr>) \<le> undisposed w2"
      by (rule drop) simp
    ultimately show ?case by simp
  next
    case (5 r k w x2 x21 x22)
    show ?case by simp
  next
    case (6 r k w x2 x21 ms)
    then show ?case using mark[of w r x2 "Composite True ms"] by simp
  next
    case (7 r k w)
    show ?case using drop[of "Composite True []" w r] by auto
  }
qed

definition dispose :: "ref \<Rightarrow> world \<Rightarrow> world" where
  "dispose r w = run [Dispose r] w"

text \<open>
  A promise is settled once: \<^verbatim>\<open>resolve\<close> and a rejection do nothing on a settled
  promise.
\<close>

definition resolve :: "ref \<Rightarrow> val \<Rightarrow> world \<Rightarrow> world" where
  "resolve p v w =
     (case lookup (promises w) p of
        Some Pending \<Rightarrow> w\<lparr>promises := (promises w)[p := Resolved v]\<rparr>
      | _ \<Rightarrow> w)"

definition reject :: "ref \<Rightarrow> error \<Rightarrow> world \<Rightarrow> world" where
  "reject p e w =
     (case lookup (promises w) p of
        Some Pending \<Rightarrow> w\<lparr>promises := (promises w)[p := Rejected e]\<rparr>
      | _ \<Rightarrow> w)"

text \<open>
  Calling a handler with a value. The wrapper of \<^verbatim>\<open>subscribe\<close> gives the call of the
  original handler to \<^verbatim>\<open>setImmediate\<close> and returns.
\<close>

fun invoke :: "handler \<Rightarrow> val \<Rightarrow> world \<Rightarrow> world" where
  "invoke (Fn n) v w = w\<lparr>trace := trace w @ [Call n v]\<rparr>"
| "invoke (Deferred h) v w = w\<lparr>queue := queue w @ [(h, v)]\<rparr>"
| "invoke (ScopeDispose cd) v w = dispose cd w"
| "invoke (SaveResolve cd p) v w = resolve p v (dispose cd w)"

text \<open>
  One turn of the scheduler: the oldest task given to \<^verbatim>\<open>setImmediate\<close> runs.
\<close>

definition turn :: "world \<Rightarrow> world" where
  "turn w = (case queue w of [] \<Rightarrow> w | (h, v) # q \<Rightarrow> invoke h v (w\<lparr>queue := q\<rparr>))"

text \<open>
  \<^verbatim>\<open>Emitter.emit(eventName, value)\<close> calls the handlers the name has when the call
  starts, in registration order, each with the one value; on a disposed emitter there
  are none. A call \<^verbatim>\<open>emitter.emit(eventName, ...args)\<close> hands over the first of the
  spread arguments, \<^verbatim>\<open>undefined\<close> when there is none.
\<close>

fun dispatchAll :: "handler list \<Rightarrow> val \<Rightarrow> world \<Rightarrow> world" where
  "dispatchAll [] v w = w"
| "dispatchAll (h # hs) v w = dispatchAll hs v (invoke h v w)"

definition firstArg :: "val list \<Rightarrow> val" where
  "firstArg args = (case args of [] \<Rightarrow> VUndefined | v # _ \<Rightarrow> v)"

definition emitter_emit :: "ref \<Rightarrow> string \<Rightarrow> val list \<Rightarrow> world \<Rightarrow> world" where
  "emitter_emit e n args w =
     (case lookup (emitters w) e of
        None \<Rightarrow> w
      | Some eo \<Rightarrow> dispatchAll (handlersByEventName eo n) (firstArg args) w)"

definition newComposite :: "ref list \<Rightarrow> world \<Rightarrow> ref \<times> world" where
  "newComposite ms w = (length (disps w), w\<lparr>disps := disps w @ [Composite False ms]\<rparr>)"

definition newEmitter :: "world \<Rightarrow> ref \<times> world" where
  "newEmitter w =
     (length (emitters w),
      w\<lparr>emitters := emitters w @ [\<lparr>e_disposed = False, handlersByEventName = (\<lambda>_. [])\<rparr>]\<rparr>)"

subsection \<open>The class UI\<close>

text \<open>
  \<^verbatim>\<open>reset()\<close>: disposes the current set and emitter where there are any, then installs
  new ones.
\<close>

definition reset :: "world \<Rightarrow> world" where
  "reset w =
     (let w1 = (case disposables w of None \<Rightarrow> w | Some d \<Rightarrow> dispose d w);
          w2 = (case emitter w1 of None \<Rightarrow> w1 | Some e \<Rightarrow> emitter_dispose e w1);
          (d', w3) = newComposite [] w2;
          w4 = w3\<lparr>disposables := Some d'\<rparr>;
          (e', w5) = newEmitter w4
      in w5\<lparr>emitter := Some e'\<rparr>)"

text \<open>
  The first two statements of \<^verbatim>\<open>reset()\<close> by themselves: the set and the emitter are
  disposed, and the fields still hold them. This is the hub torn down, the state in
  which \<^verbatim>\<open>reset()\<close> goes on to install the new set and the new emitter.
\<close>

definition teardown :: "world \<Rightarrow> world" where
  "teardown w =
     (let w1 = (case disposables w of None \<Rightarrow> w | Some d \<Rightarrow> dispose d w)
      in case emitter w1 of None \<Rightarrow> w1 | Some e \<Rightarrow> emitter_dispose e w1)"

text \<open>
  Loading the module: \<^verbatim>\<open>delayNext = false\<close>, then \<^verbatim>\<open>new UI()\<close>, whose constructor
  calls \<^verbatim>\<open>reset()\<close> on an object without fields. \<open>newObject\<close> is the state in which the
  constructor starts, the only one of a run in which the field \<^verbatim>\<open>emitter\<close> is undefined.
  The arguments are the host's state.
\<close>

definition newObject ::
  "(string \<Rightarrow> string option) \<Rightarrow> (string list \<Rightarrow> bool) \<Rightarrow> sheet list \<Rightarrow> cssrule list \<Rightarrow> world" where
  "newObject sp il sheets rs =
     \<lparr>delayNext = False, emitter = None, disposables = None, projects = None,
      lightTheme = None, restoreOffset = None, emitters = [], disps = [],
      promises = [], rules = rs, styleSheets = sheets, stylePath = sp,
      isLight = il, queue = [], trace = [], seen = []\<rparr>"

definition loadModule ::
  "(string \<Rightarrow> string option) \<Rightarrow> (string list \<Rightarrow> bool) \<Rightarrow> sheet list \<Rightarrow> cssrule list \<Rightarrow> world" where
  "loadModule sp il sheets rs = reset (newObject sp il sheets rs)"

text \<open>
  \<^verbatim>\<open>init()\<close>: sets the two tracked values and adds the two subscriptions of the host
  (to the project paths and to the active themes) to the set. The method
  \<^verbatim>\<open>this.disposables.add\<close> is read before its arguments are evaluated, so without a set
  the call raises before the host is subscribed to.
\<close>

definition init :: "world \<Rightarrow> (error + unit) \<times> world" where
  "init w =
     (let w1 = w\<lparr>projects := Some [], lightTheme := Some False\<rparr>
      in case disposables w1 of
           None \<Rightarrow> (Inl TypeError, w1)
         | Some d \<Rightarrow>
             (let (a, w2) = newDisposable (HostOff 0) w1;
                  (b, w3) = newDisposable (HostOff 1) w2
              in (Inr (), cd_add d b (cd_add d a w3))))"

text \<open>
  \<^verbatim>\<open>subscribe(eventName, handler)\<close>: with \<^verbatim>\<open>delayNext\<close> set, the handler is wrapped
  and the flag is cleared. The result is the handle and the state after the call.
\<close>

definition subscribe :: "string \<Rightarrow> handler \<Rightarrow> world \<Rightarrow> (error + ref) \<times> world" where
  "subscribe eventName h w =
     (let h' = (if delayNext w then Deferred h else h);
          w1 = (if delayNext w then w\<lparr>delayNext := False\<rparr> else w)
      in case emitter w1 of
           Some e \<Rightarrow> emitter_on e eventName h' w1
         | None \<Rightarrow> (let (d, w2) = newDisposable Nop w1 in (Inr d, w2)))"

text \<open>
  \<^verbatim>\<open>emit(eventName, args = [])\<close>; a call without \<^verbatim>\<open>args\<close> is \<open>emit n []\<close>.
\<close>

definition emit :: "string \<Rightarrow> val list \<Rightarrow> world \<Rightarrow> world" where
  "emit eventName args w =
     (let w1 = w\<lparr>trace := trace w @ [Emit eventName args],
                  seen := seen w @ [(projects w, lightTheme w)]\<rparr>
      in case emitter w1 of
           None \<Rightarrow> w1
         | Some e \<Rightarrow> emitter_emit e eventName args w1)"

text \<open>The getter \<^verbatim>\<open>delay\<close>: sets the flag and returns the instance.\<close>

definition delay :: "world \<Rightarrow> world" where
  "delay w = w\<lparr>delayNext := True\<rparr>"

definition emitMotifChanged :: "val list \<Rightarrow> world \<Rightarrow> world" where
  "emitMotifChanged args w = emit ''motif-changed'' args w"

definition emitProjectsAvailable :: "val list \<Rightarrow> world \<Rightarrow> world" where
  "emitProjectsAvailable args w = emit ''projects-available'' args w"

definition emitProjectsChanged :: "val list \<Rightarrow> world \<Rightarrow> world" where
  "emitProjectsChanged args w = emit ''projects-changed'' args w"

definition emitProjectsEmptied :: "val list \<Rightarrow> world \<Rightarrow> world" where
  "emitProjectsEmptied args w = emit ''projects-emptied'' args w"

subsection \<open>Tracked project roots\<close>

text \<open>
  \<^verbatim>\<open>Array.prototype.join("\n")\<close> on an array of strings: the elements with a line
  feed between neighbours, the empty string for the empty array.
\<close>

fun jsJoin :: "string list \<Rightarrow> string" where
  "jsJoin [] = []"
| "jsJoin [x] = x"
| "jsJoin (x # y # ys) = x @ CHR 0x0A # jsJoin (y # ys)"

text \<open>
  \<^verbatim>\<open>setProjects(to = [])\<close>; a call without argument is \<open>setProjects []\<close>. Before
  \<^verbatim>\<open>init()\<close> the field \<^verbatim>\<open>projects\<close> is undefined and \<^verbatim>\<open>from.join\<close> raises.
\<close>

definition setProjects :: "string list \<Rightarrow> world \<Rightarrow> (error + unit) \<times> world" where
  "setProjects to w =
     (case projects w of
        None \<Rightarrow> (Inl TypeError, w)
      | Some from \<Rightarrow>
          if jsJoin from \<noteq> jsJoin to then
            (let w1 = w\<lparr>projects := Some to\<rparr>;
                 w2 = (if to \<noteq> [] then emitProjectsAvailable [] w1
                       else emitProjectsEmptied [] w1)
             in (Inr (), emitProjectsChanged [VChange from to] w2))
          else (Inr (), w))"

subsection \<open>Theme brightness\<close>

text \<open>
  \<^verbatim>\<open>getStyleElement(filename)\<close>: the first style sheet whose owner node has the
  source path of the package's style file, \<^verbatim>\<open>null\<close> when there is none.
\<close>

definition getStyleElement :: "string \<Rightarrow> world \<Rightarrow> error + sheet option" where
  "getStyleElement filename w =
     (case stylePath w filename of
        None \<Rightarrow> Inl TypeError
      | Some p \<Rightarrow> Inr (find (\<lambda>s. sourcePath s = Some p) (styleSheets w)))"

text \<open>
  The two regular expressions of \<^verbatim>\<open>getThemeColour\<close>, on strings of 8-bit characters.

  \<^verbatim>\<open>/rgb\(.+\)/\<close>: the leftmost place where \<^verbatim>\<open>rgb(\<close> stands, followed on the same line
  by at least one character and then a closing parenthesis; the match runs to the
  last closing parenthesis of that line. \<open>rgbHere\<close> is the match at the start of the
  string, \<open>rgbMatch\<close> is \<^verbatim>\<open>match[0]\<close> of the search.

  \<^verbatim>\<open>/[\d.]+(?=[,)])/g\<close>: every maximal run of digits and dots that a comma or a closing
  parenthesis follows. An empty result is the \<^verbatim>\<open>null\<close> that \<^verbatim>\<open>String.match\<close> returns.
\<close>

definition lineTerminator :: "char \<Rightarrow> bool" where
  "lineTerminator c = (c = CHR 0x0A \<or> c = CHR 0x0D)"

definition rgbHere :: "string \<Rightarrow> string option" where
  "rgbHere s =
     (if take 4 s = ''rgb('' then
        (let body = takeWhile (\<lambda>c. \<not> lineTerminator c) (drop 4 s);
             m = rev (dropWhile (\<lambda>c. c \<noteq> CHR '')'') (rev body))
         in if 2 \<le> length m then Some (''rgb('' @ m) else None)
      else None)"

fun rgbMatch :: "string \<Rightarrow> string option" where
  "rgbMatch [] = None"
| "rgbMatch (c # cs) =
     (case rgbHere (c # cs) of Some m \<Rightarrow> Some m | None \<Rightarrow> rgbMatch cs)"

definition numChar :: "char \<Rightarrow> bool" where
  "numChar c = (c \<in> set ''0123456789.'')"

function numTokens :: "string \<Rightarrow> string list" where
  "numTokens [] = []"
| "numTokens (c # cs) =
     (if numChar c then
        (case dropWhile numChar cs of
           [] \<Rightarrow> []
         | d # ds \<Rightarrow>
             if d = CHR '','' \<or> d = CHR '')''
             then (c # takeWhile numChar cs) # numTokens (d # ds)
             else numTokens (d # ds))
      else numTokens cs)"
  by pat_completeness auto
termination
proof (relation "measure length", goal_cases)
  case 1
  show ?case by simp
next
  case (2 c cs d ds)
  have "length (dropWhile numChar cs) \<le> length cs"
    by (rule length_dropWhile_le)
  with 2 show ?case by simp
next
  case (3 c cs d ds)
  have "length (dropWhile numChar cs) \<le> length cs"
    by (rule length_dropWhile_le)
  with 3 show ?case by simp
next
  case (4 c cs)
  show ?case by simp
qed

text \<open>
  \<^verbatim>\<open>getThemeColour()\<close>: the colour of the first rule with the selector
  \<^verbatim>\<open>.theme-colour-check\<close>, as the number strings matched in it. \<open>themeRule\<close> is the loop
  over \<^verbatim>\<open>styleSheet.cssRules\<close>. The style sheet is read without a test for \<^verbatim>\<open>null\<close>,
  and the second match is mapped without one.
\<close>

fun themeRule :: "ref list \<Rightarrow> cssrule list \<Rightarrow> error + string list option" where
  "themeRule [] rs = Inr None"
| "themeRule (r # rest) rs =
     (case lookup rs r of
        None \<Rightarrow> Inl TypeError
      | Some rl \<Rightarrow>
          if selectorText rl = Some ''.theme-colour-check'' then
            (case rgbMatch (cssText rl) of
               None \<Rightarrow> Inr None
             | Some m \<Rightarrow>
                 (case numTokens m of [] \<Rightarrow> Inl TypeError | t # ts \<Rightarrow> Inr (Some (t # ts))))
          else themeRule rest rs)"

definition getThemeColour :: "world \<Rightarrow> error + string list option" where
  "getThemeColour w =
     (case getStyleElement ''colours.less'' w of
        Inl e \<Rightarrow> Inl e
      | Inr None \<Rightarrow> Inl TypeError
      | Inr (Some styleSheet) \<Rightarrow> themeRule (cssRules styleSheet) (rules w))"

text \<open>\<^verbatim>\<open>checkMotif()\<close>. An undefined \<^verbatim>\<open>lightTheme\<close> differs from both flags.\<close>

definition checkMotif :: "world \<Rightarrow> (error + unit) \<times> world" where
  "checkMotif w =
     (case getThemeColour w of
        Inl e \<Rightarrow> (Inl e, w)
      | Inr None \<Rightarrow> (Inr (), w)
      | Inr (Some colour) \<Rightarrow>
          (let light = isLight w colour
           in if Some light \<noteq> lightTheme w
              then (Inr (), emitMotifChanged [VBool light] (w\<lparr>lightTheme := Some light\<rparr>))
              else (Inr (), w)))"

subsection \<open>The offset patch\<close>

definition offsetSelector :: string where
  "offsetSelector = ''.list-group .icon::before, .list-tree .icon::before''"

text \<open>
  The two loops of \<^verbatim>\<open>fixOffset\<close>: the first rule, in document order, that has the
  selector and a non-empty \<^verbatim>\<open>style.top\<close>.
\<close>

fun offsetRule :: "ref list \<Rightarrow> cssrule list \<Rightarrow> error + (ref \<times> cssrule) option" where
  "offsetRule [] rs = Inr None"
| "offsetRule (r # rest) rs =
     (case lookup rs r of
        None \<Rightarrow> Inl TypeError
      | Some rl \<Rightarrow>
          if selectorText rl = Some offsetSelector \<and> styleTop rl \<noteq> []
          then Inr (Some (r, rl))
          else offsetRule rest rs)"

fun offsetSheet :: "sheet list \<Rightarrow> cssrule list \<Rightarrow> error + (ref \<times> cssrule) option" where
  "offsetSheet [] rs = Inr None"
| "offsetSheet (s # rest) rs =
     (case offsetRule (cssRules s) rs of
        Inl e \<Rightarrow> Inl e
      | Inr (Some found) \<Rightarrow> Inr (Some found)
      | Inr None \<Rightarrow> offsetSheet rest rs)"

text \<open>
  The end of the patch, \<^verbatim>\<open>this.restoreOffset = new Disposable(...)\<close> and
  \<^verbatim>\<open>this.disposables.add(this.restoreOffset)\<close>.
\<close>

definition installRestore :: "ref \<Rightarrow> string \<Rightarrow> world \<Rightarrow> (error + unit) \<times> world" where
  "installRestore r offset w =
     (let (n, w1) = newDisposable (RestoreTop r offset) w;
          w2 = w1\<lparr>restoreOffset := Some n\<rparr>
      in case disposables w2 of
           None \<Rightarrow> (Inl TypeError, w2)
         | Some d \<Rightarrow> (Inr (), cd_add d n w2))"

definition fixOffset :: "world \<Rightarrow> (error + unit) \<times> world" where
  "fixOffset w =
     (case offsetSheet (styleSheets w) (rules w) of
        Inl e \<Rightarrow> (Inl e, w)
      | Inr None \<Rightarrow> (Inr (), w)
      | Inr (Some (r, rl)) \<Rightarrow>
          (let offset = styleTop rl;
               w1 = w\<lparr>rules := (rules w)[r := rl\<lparr>styleTop := []\<rparr>]\<rparr>
           in case restoreOffset w1 of
                None \<Rightarrow> installRestore r offset w1
              | Some old \<Rightarrow>
                  (let w2 = dispose old w1
                   in case disposables w2 of
                        None \<Rightarrow> (Inl TypeError, w2)
                      | Some d \<Rightarrow> installRestore r offset (cd_remove d old w2))))"

subsection \<open>Waiting for a new document to be saved\<close>

text \<open>
  Modelled from the spec: a document handle of the host editor is known by its own
  emitter; \<^verbatim>\<open>editor.onDidDestroy(f)\<close> and \<^verbatim>\<open>editor.onDidChangePath(f)\<close> register \<open>f\<close> there,
  and the document's "destroyed" and "path changed" signals are emissions of it.
\<close>

definition onDidDestroy :: "ref \<Rightarrow> handler \<Rightarrow> world \<Rightarrow> (error + ref) \<times> world" where
  "onDidDestroy editor h w = emitter_on editor ''did-destroy'' h w"

definition onDidChangePath :: "ref \<Rightarrow> handler \<Rightarrow> world \<Rightarrow> (error + ref) \<times> world" where
  "onDidChangePath editor h w = emitter_on editor ''did-change-path'' h w"

definition destroyed :: "ref \<Rightarrow> world \<Rightarrow> world" where
  "destroyed editor w = emitter_emit editor ''did-destroy'' [] w"

definition pathChanged :: "ref \<Rightarrow> string \<Rightarrow> world \<Rightarrow> world" where
  "pathChanged editor file w = emitter_emit editor ''did-change-path'' [VStr file] w"

text \<open>
  \<^verbatim>\<open>waitToSave(editor)\<close>: the promise and the state. The three members are made
  before the set \<^verbatim>\<open>cd\<close> that the closures name, so \<^verbatim>\<open>cd\<close> is the fourth object made.
  An error raised in the executor rejects the promise.
\<close>

definition waitToSave :: "ref \<Rightarrow> world \<Rightarrow> ref \<times> world" where
  "waitToSave editor w =
     (let p = length (promises w);
          w0 = w\<lparr>promises := promises w @ [Pending]\<rparr>;
          cd = length (disps w0) + 3;
          (d1, w1) = newDisposable (Detach cd) w0
      in case onDidDestroy editor (ScopeDispose cd) w1 of
           (Inl e, w2) \<Rightarrow> (p, reject p e w2)
         | (Inr d2, w2) \<Rightarrow>
             (case onDidChangePath editor (SaveResolve cd p) w2 of
                (Inl e, w3) \<Rightarrow> (p, reject p e w3)
              | (Inr d3, w3) \<Rightarrow>
                  (let (c, w4) = newComposite [d1, d2, d3] w3
                   in case disposables w4 of
                        None \<Rightarrow> (p, reject p TypeError w4)
                      | Some d \<Rightarrow> (p, cd_add d c w4))))"

subsection \<open>Notions used in the statements\<close>

text \<open>
  The handlers the hub holds for an event name: those of the emitter in the field
  \<^verbatim>\<open>emitter\<close>, none when the field is empty.
\<close>

definition registered :: "world \<Rightarrow> string \<Rightarrow> handler list" where
  "registered w n =
     (case emitter w of
        None \<Rightarrow> []
      | Some e \<Rightarrow>
          (case lookup (emitters w) e of None \<Rightarrow> [] | Some eo \<Rightarrow> handlersByEventName eo n))"

text \<open>
  What a dispatch of the value \<open>v\<close> to the handlers \<open>hs\<close> adds to the trace (the calls
  made before \<^verbatim>\<open>emit\<close> returns) and to the tasks of the scheduler.
\<close>

fun calls :: "handler list \<Rightarrow> val \<Rightarrow> event list" where
  "calls [] v = []"
| "calls (Fn n # hs) v = Call n v # calls hs v"
| "calls (h # hs) v = calls hs v"

fun deferrals :: "handler list \<Rightarrow> val \<Rightarrow> (handler \<times> val) list" where
  "deferrals [] v = []"
| "deferrals (Deferred h # hs) v = (h, v) # deferrals hs v"
| "deferrals (h # hs) v = deferrals hs v"

text \<open>The emissions of a trace, in order.\<close>

fun isEmit :: "event \<Rightarrow> bool" where
  "isEmit (Emit n args) = True"
| "isEmit (Call n v) = False"

definition emissions :: "world \<Rightarrow> event list" where
  "emissions w = filter isEmit (trace w)"

text \<open>
  An observation of the state that does not read the three stores a disposal writes
  to.
\<close>

definition stores_only :: "(world \<Rightarrow> 'a) \<Rightarrow> bool" where
  "stores_only f =
     (\<forall>w d e r. f (w\<lparr>disps := d\<rparr>) = f w \<and> f (w\<lparr>emitters := e\<rparr>) = f w \<and>
                f (w\<lparr>rules := r\<rparr>) = f w)"

text \<open>Paths that are not empty and hold no line feed.\<close>

definition plainPaths :: "string list \<Rightarrow> bool" where
  "plainPaths ps = list_all (\<lambda>p. p \<noteq> [] \<and> CHR 0x0A \<notin> set p) ps"

text \<open>
  The flag \<^verbatim>\<open>checkMotif\<close> derives in a state, \<open>None\<close> when \<^verbatim>\<open>getThemeColour\<close> raises or
  returns \<^verbatim>\<open>null\<close>.
\<close>

definition reading :: "world \<Rightarrow> bool option" where
  "reading w =
     (case getThemeColour w of
        Inr (Some colour) \<Rightarrow> Some (isLight w colour)
      | _ \<Rightarrow> None)"

text \<open>
  A run of calls of \<^verbatim>\<open>checkMotif\<close>, the host replacing the document's style sheets
  before each.
\<close>

fun checkMotifs :: "sheet list list \<Rightarrow> world \<Rightarrow> world" where
  "checkMotifs [] w = w"
| "checkMotifs (s # ss) w = checkMotifs ss (snd (checkMotif (w\<lparr>styleSheets := s\<rparr>)))"

text \<open>
  The number of readings in a sequence that differ from the reading before them, the
  stored flag standing before the first; a missing reading is passed over.
\<close>

fun flips :: "bool option \<Rightarrow> bool option list \<Rightarrow> nat" where
  "flips stored [] = 0"
| "flips stored (None # rs) = flips stored rs"
| "flips stored (Some b # rs) = (if stored \<noteq> Some b then 1 else 0) + flips (Some b) rs"

text \<open>The number of \<^verbatim>\<open>motif-changed\<close> emissions in the trace.\<close>

fun isMotif :: "event \<Rightarrow> bool" where
  "isMotif (Emit n args) = (n = ''motif-changed'')"
| "isMotif (Call n v) = False"

definition motifCount :: "world \<Rightarrow> nat" where
  "motifCount w = length (filter isMotif (trace w))"

text \<open>The part of a rule that \<^verbatim>\<open>getThemeColour\<close> reads.\<close>

definition ruleText :: "cssrule \<Rightarrow> string option \<times> string" where
  "ruleText r = (selectorText r, cssText r)"


text \<open>\<open>n\<close> flags that start with \<open>b\<close> and alternate.\<close>

fun alternate :: "bool \<Rightarrow> nat \<Rightarrow> bool list" where
  "alternate b 0 = []"
| "alternate b (Suc n) = b # alternate (\<not> b) n"

text \<open>
  The operations on the instance, the scheduler's turn and the two signals of a
  document, as commands; \<open>perform\<close> runs one and keeps the state, \<open>performAll\<close> runs
  a sequence.
\<close>

datatype op =
    Subscribe string handler
  | EmitOp string "val list"
  | Delay
  | Reset
  | Init
  | SetProjects "string list"
  | CheckMotif
  | FixOffset
  | WaitToSave ref
  | DisposeHandle ref
  | Turn
  | PathChanged ref string
  | Destroyed ref

fun perform :: "op \<Rightarrow> world \<Rightarrow> world" where
  "perform (Subscribe n h) w = snd (subscribe n h w)"
| "perform (EmitOp n args) w = emit n args w"
| "perform Delay w = delay w"
| "perform Reset w = reset w"
| "perform Init w = snd (init w)"
| "perform (SetProjects to) w = snd (setProjects to w)"
| "perform CheckMotif w = snd (checkMotif w)"
| "perform FixOffset w = snd (fixOffset w)"
| "perform (WaitToSave editor) w = snd (waitToSave editor w)"
| "perform (DisposeHandle r) w = dispose r w"
| "perform Turn w = turn w"
| "perform (PathChanged editor file) w = pathChanged editor file w"
| "perform (Destroyed editor) w = destroyed editor w"

fun performAll :: "op list \<Rightarrow> world \<Rightarrow> world" where
  "performAll [] w = w"
| "performAll (x # xs) w = performAll xs (perform x w)"

fun isSubscribe :: "op \<Rightarrow> bool" where
  "isSubscribe (Subscribe n h) = True"
| "isSubscribe x = False"

text \<open>
  A handler mentions the subscriber function \<open>f\<close> when it is \<open>f\<close> or a wrapper around
  it, so that calling it calls \<open>f\<close> at once or on a later turn.
\<close>

fun mentions :: "nat \<Rightarrow> handler \<Rightarrow> bool" where
  "mentions f (Fn n) = (n = f)"
| "mentions f (Deferred h) = mentions f h"
| "mentions f (ScopeDispose cd) = False"
| "mentions f (SaveResolve cd p) = False"

text \<open>
  The operations of the instance that do not subscribe \<open>f\<close>. The scheduler's turn and
  the signals of a document are not operations of the instance.
\<close>

fun hubOp :: "nat \<Rightarrow> op \<Rightarrow> bool" where
  "hubOp f (Subscribe n h) = (\<not> mentions f h)"
| "hubOp f Turn = False"
| "hubOp f (PathChanged editor file) = False"
| "hubOp f (Destroyed editor) = False"
| "hubOp f x = True"

text \<open>
  Three relations for the proofs. \<open>extends f u u'\<close>: in \<open>u'\<close> the hub holds no handler
  that mentions \<open>f\<close>, and \<open>u'\<close> has the trace and the tasks of \<open>u\<close> followed by entries
  that do not call or mention \<open>f\<close>. \<open>fields_only g\<close>: the observation \<open>g\<close> reads neither
  a store nor a field an operation other than \<^verbatim>\<open>emit\<close> writes. \<open>narrows u w\<close>: \<open>u\<close> has
  the emitter of \<open>w\<close>, with no handler that \<open>w\<close> does not have.
\<close>

definition extends :: "nat \<Rightarrow> world \<Rightarrow> world \<Rightarrow> bool" where
  "extends f u u' =
     ((\<forall>m. \<forall>g \<in> set (registered u' m). \<not> mentions f g)
      \<and> (\<exists>t. trace u' = trace u @ t \<and> (\<forall>v. Call f v \<notin> set t))
      \<and> (\<exists>q. queue u' = queue u @ q \<and> (\<forall>(g, v) \<in> set q. \<not> mentions f g)))"

definition fields_only :: "(world \<Rightarrow> 'a) \<Rightarrow> bool" where
  "fields_only f =
     (stores_only f \<and>
      (\<forall>w x. f (w\<lparr>promises := x\<rparr>) = f w) \<and> (\<forall>w x. f (w\<lparr>projects := x\<rparr>) = f w) \<and>
      (\<forall>w x. f (w\<lparr>lightTheme := x\<rparr>) = f w) \<and> (\<forall>w x. f (w\<lparr>restoreOffset := x\<rparr>) = f w) \<and>
      (\<forall>w x. f (w\<lparr>disposables := x\<rparr>) = f w) \<and> (\<forall>w x. f (w\<lparr>emitter := x\<rparr>) = f w))"

definition narrows :: "world \<Rightarrow> world \<Rightarrow> bool" where
  "narrows u w = (emitter u = emitter w \<and> (\<forall>m. set (registered u m) \<subseteq> set (registered w m)))"

text \<open>
  The restoring capabilities of \<^verbatim>\<open>fixOffset\<close> that are active: the objects made by
  \<^verbatim>\<open>new Disposable(_=> rule.style.top = offset)\<close> that are not disposed. \<open>onePatch\<close>: none
  is active but the one the field \<^verbatim>\<open>restoreOffset\<close> names.
\<close>

fun isRestorer :: "dobj \<Rightarrow> bool" where
  "isRestorer (Disposable False (Some (RestoreTop r v))) = True"
| "isRestorer d = False"

definition active :: "world \<Rightarrow> ref \<Rightarrow> bool" where
  "active w i = (case lookup (disps w) i of None \<Rightarrow> False | Some d \<Rightarrow> isRestorer d)"

definition restorers :: "world \<Rightarrow> ref list" where
  "restorers w = filter (active w) [0..<length (disps w)]"

definition onePatch :: "world \<Rightarrow> bool" where
  "onePatch w = list_all (\<lambda>i. restoreOffset w = Some i) (restorers w)"

text \<open>
  A relation for the proofs: \<open>u\<close> has the field \<^verbatim>\<open>restoreOffset\<close> of \<open>w\<close> and no active
  restoring capability that \<open>w\<close> does not have.
\<close>

definition fewer :: "world \<Rightarrow> world \<Rightarrow> bool" where
  "fewer u w = (restoreOffset u = restoreOffset w \<and> (\<forall>i. active u i \<longrightarrow> active w i))"

text \<open>
  The handlers that are not closures of \<^verbatim>\<open>waitToSave\<close>: a subscriber's function, or a
  wrapper, whose call only schedules. \<open>signalOf ed\<close>: the two signals of the document
  \<open>ed\<close>.
\<close>

fun quiet :: "handler \<Rightarrow> bool" where
  "quiet (Fn n) = True"
| "quiet (Deferred h) = True"
| "quiet (ScopeDispose cd) = False"
| "quiet (SaveResolve cd p) = False"

fun signalOf :: "ref \<Rightarrow> op \<Rightarrow> bool" where
  "signalOf ed (PathChanged e f) = (e = ed)"
| "signalOf ed (Destroyed e) = (e = ed)"
| "signalOf ed x = False"


definition flags :: "world \<Rightarrow> ref option \<times> bool list" where
  "flags w = (emitter w, map e_disposed (emitters w))"

subsection \<open>Example states\<close>

text \<open>
  The instance after the module is loaded and \<^verbatim>\<open>init()\<close> has run, in a document with
  the package's colour sheet (a white check colour) and one rule that has the offset.
\<close>

definition demoSheets :: "sheet list" where
  "demoSheets = [\<lparr>sourcePath = Some ''/pkg/styles/colours.less'', cssRules = [0]\<rparr>,
                 \<lparr>sourcePath = None, cssRules = [1]\<rparr>]"

definition demoRules :: "cssrule list" where
  "demoRules =
     [\<lparr>selectorText = Some ''.theme-colour-check'',
       cssText = ''.theme-colour-check { color: rgb(255, 255, 255); }'', styleTop = []\<rparr>,
      \<lparr>selectorText = Some offsetSelector, cssText = [], styleTop = ''5px''\<rparr>,
      \<lparr>selectorText = Some ''.theme-colour-check'',
       cssText = ''.theme-colour-check { color: rgb(0, 0, 0); }'', styleTop = []\<rparr>]"

text \<open>The document after a change to a theme whose check colour is black.\<close>

definition darkSheets :: "sheet list" where
  "darkSheets = [\<lparr>sourcePath = Some ''/pkg/styles/colours.less'', cssRules = [2]\<rparr>]"

definition demo :: world where
  "demo = snd (init (loadModule (\<lambda>f. Some (''/pkg/styles/'' @ f))
                                (\<lambda>c. c = [''255'', ''255'', ''255'']) demoSheets demoRules))"


text \<open>A path of two lines.\<close>

definition twoLines :: string where
  "twoLines = ''a'' @ CHR 0x0A # ''b''"

text \<open>
  The state after \<^verbatim>\<open>UI.delay.subscribe("open-file", f1)\<close>, \<^verbatim>\<open>UI.subscribe("open-file", f2)\<close>
  and \<^verbatim>\<open>UI.emit("open-file", [editor])\<close>.
\<close>

definition demoEmitted :: world where
  "demoEmitted =
     emit ''open-file'' [VObj 7]
       (snd (subscribe ''open-file'' (Fn 2) (snd (subscribe ''open-file'' (Fn 1) (delay demo)))))"

text \<open>The state after two calls of \<^verbatim>\<open>fixOffset\<close> in succession.\<close>

definition demoPatched :: world where
  "demoPatched = snd (fixOffset (snd (fixOffset demo)))"

text \<open>
  The state \<open>demo\<close> with a new document of the host: the emitter 1, with one handler of the
  host for "destroyed".
\<close>

definition demoDoc :: world where
  "demoDoc = demo\<lparr>emitters := emitters demo @
                [\<lparr>e_disposed = False, handlersByEventName = (\<lambda>_. [])(''did-destroy'' := [Fn 9])\<rparr>]\<rparr>"

section \<open>Properties\<close>

subsection \<open>What a disposal leaves alone\<close>

lemma act_frame: "stores_only f \<Longrightarrow> f (act a w) = f w"
  by (cases a) (auto simp: stores_only_def emitter_off_def cd_remove_def split: option.splits dobj.splits bool.splits)

lemma run_frame: "stores_only f \<Longrightarrow> f (run k w) = f w"
proof (induction k w rule: run.induct)
  case (1 w)
  then show ?case by simp
next
  case (2 r k w)
  note so = \<open>stores_only f\<close>
  show ?case
  proof (cases "lookup (disps w) r")
    case None
    with 2 show ?thesis by simp
  next
    case (Some x)
    show ?thesis
    proof (cases x)
      case (Disposable b a)
      show ?thesis
      proof (cases b)
        case True
        with 2 Some Disposable show ?thesis by simp
      next
        case False
        define w1 where "w1 = w\<lparr>disps := (disps w)[r := Disposable True a]\<rparr>"
        define w2 where "w2 = (case a of None \<Rightarrow> w1 | Some g \<Rightarrow> act g w1)"
        have step: "run (Dispose r # k) w = run k (w2\<lparr>disps := (disps w2)[r := Disposable True None]\<rparr>)"
          unfolding w1_def w2_def using Some Disposable False by (simp add: Let_def)
        have "f (run (Dispose r # k) w) = f (w2\<lparr>disps := (disps w2)[r := Disposable True None]\<rparr>)"
          unfolding step using "2.IH"(3)[OF Some Disposable _ w1_def w2_def] so False by simp
        also have "\<dots> = f w2" using so by (simp add: stores_only_def)
        also have "\<dots> = f w1" using act_frame[OF so] by (cases a) (simp_all add: w2_def)
        also have "\<dots> = f w" using so by (simp add: stores_only_def w1_def)
        finally show ?thesis .
      qed
    next
      case (Composite b ms)
      show ?thesis
      proof (cases b)
        case True
        with 2 Some Composite show ?thesis by simp
      next
        case False
        with "2.IH"(5)[OF Some Composite] so Some Composite show ?thesis
          by (simp add: stores_only_def)
      qed
    qed
  qed
next
  case (3 r k w)
  then show ?case by (simp add: stores_only_def)
qed

declare run.simps [simp del]

lemma stores_only_fields [simp]:
  "stores_only trace" "stores_only queue" "stores_only delayNext" "stores_only emitter"
  "stores_only disposables" "stores_only projects" "stores_only lightTheme"
  "stores_only restoreOffset" "stores_only promises" "stores_only styleSheets"
  "stores_only stylePath" "stores_only isLight"
  by (simp_all add: stores_only_def)

lemma dispose_frame: "stores_only f \<Longrightarrow> f (dispose r w) = f w"
  by (simp add: dispose_def run_frame)

lemma dispatchAll_trace: "trace (dispatchAll hs v w) = trace w @ calls hs v"
proof (induction hs arbitrary: w)
  case Nil
  then show ?case by simp
next
  case (Cons h hs)
  show ?case
    by (cases h) (simp_all add: Cons.IH dispose_frame resolve_def split: option.splits promise.splits)
qed

lemma dispatchAll_queue: "queue (dispatchAll hs v w) = queue w @ deferrals hs v"
proof (induction hs arbitrary: w)
  case Nil
  then show ?case by simp
next
  case (Cons h hs)
  show ?case
    by (cases h) (simp_all add: Cons.IH dispose_frame resolve_def split: option.splits promise.splits)
qed

lemma invoke_frame:
  "stores_only f \<Longrightarrow> (\<And>w t. f (w\<lparr>trace := t\<rparr>) = f w) \<Longrightarrow> (\<And>w q. f (w\<lparr>queue := q\<rparr>) = f w)
   \<Longrightarrow> (\<And>w p. f (w\<lparr>promises := p\<rparr>) = f w) \<Longrightarrow> f (invoke h v w) = f w"
  by (cases h) (simp_all add: dispose_frame resolve_def split: option.splits promise.splits)

lemma dispatchAll_frame:
  "stores_only f \<Longrightarrow> (\<And>w t. f (w\<lparr>trace := t\<rparr>) = f w) \<Longrightarrow> (\<And>w q. f (w\<lparr>queue := q\<rparr>) = f w)
   \<Longrightarrow> (\<And>w p. f (w\<lparr>promises := p\<rparr>) = f w) \<Longrightarrow> f (dispatchAll hs v w) = f w"
  by (induction hs arbitrary: w) (simp_all add: invoke_frame)

lemma emit_trace:
  "trace (emit n args w) = trace w @ Emit n args # calls (registered w n) (firstArg args)"
  by (simp add: emit_def emitter_emit_def registered_def dispatchAll_trace Let_def split: option.splits)

lemma emit_queue:
  "queue (emit n args w) = queue w @ deferrals (registered w n) (firstArg args)"
  by (simp add: emit_def emitter_emit_def registered_def dispatchAll_queue Let_def split: option.splits)

lemma emit_frame:
  "stores_only f \<Longrightarrow> (\<And>w t. f (w\<lparr>trace := t\<rparr>) = f w) \<Longrightarrow> (\<And>w q. f (w\<lparr>queue := q\<rparr>) = f w)
   \<Longrightarrow> (\<And>w p. f (w\<lparr>promises := p\<rparr>) = f w) \<Longrightarrow> (\<And>w x. f (w\<lparr>seen := x\<rparr>) = f w)
   \<Longrightarrow> f (emit n args w) = f w"
  by (simp add: emit_def emitter_emit_def dispatchAll_frame Let_def split: option.splits)

lemma isEmit_calls [simp]: "filter isEmit (calls hs v) = []"
  by (induction hs v rule: calls.induct) simp_all

lemma emit_emissions: "emissions (emit n args w) = emissions w @ [Emit n args]"
  by (simp add: emissions_def emit_trace)

lemma emit_projects: "projects (emit n args w) = projects w"
  by (rule emit_frame) simp_all

lemma emit_lightTheme: "lightTheme (emit n args w) = lightTheme w"
  by (rule emit_frame) simp_all

lemma stores_only_seen [simp]: "stores_only seen"
  by (simp add: stores_only_def)

lemma emit_seen: "seen (emit n args w) = seen w @ [(projects w, lightTheme w)]"
  by (simp add: emit_def emitter_emit_def dispatchAll_frame Let_def split: option.splits)

lemma dispose_plain:
  "lookup (disps w) r = Some (Disposable False (Some a)) \<Longrightarrow>
   dispose r w =
     (let w2 = act a (w\<lparr>disps := (disps w)[r := Disposable True (Some a)]\<rparr>)
      in w2\<lparr>disps := (disps w2)[r := Disposable True None]\<rparr>)"
  by (simp add: dispose_def run.simps Let_def)

lemma dispose_dead:
  "lookup (disps w) r = None \<or> lookup (disps w) r = Some (Disposable True a)
     \<or> lookup (disps w) r = Some (Composite True ms) \<Longrightarrow> dispose r w = w"
  by (auto simp: dispose_def run.simps)

lemma lookup_append [simp]:
  "lookup (xs @ [x]) i = (if i = length xs then Some x else lookup xs i)"
  by (auto simp: lookup_def nth_append)

lemma lookup_update [simp]:
  "lookup (xs[i := x]) j = (if j = i \<and> i < length xs then Some x else lookup xs j)"
  by (auto simp: lookup_def)

lemma no_lf_split:
  assumes "CHR 0x0A \<notin> set x" "CHR 0x0A \<notin> set y" "x @ CHR 0x0A # r = y @ CHR 0x0A # s"
  shows "x = y \<and> r = s"
proof -
  have "takeWhile (\<lambda>c. c \<noteq> CHR 0x0A) (x @ CHR 0x0A # r) = x"
    using assms(1) by (induction x) auto
  moreover have "takeWhile (\<lambda>c. c \<noteq> CHR 0x0A) (y @ CHR 0x0A # s) = y"
    using assms(2) by (induction y) auto
  ultimately have "x = y" using assms(3) by simp
  with assms(3) show ?thesis by simp
qed

lemma jsJoin_inj:
  "plainPaths xs \<Longrightarrow> plainPaths ys \<Longrightarrow> jsJoin xs = jsJoin ys \<Longrightarrow> xs = ys"
proof (induction xs arbitrary: ys rule: jsJoin.induct)
  case 1
  then show ?case
    by (cases ys rule: jsJoin.cases) (auto simp: plainPaths_def)
next
  case (2 x)
  then show ?case
    by (cases ys rule: jsJoin.cases) (auto simp: plainPaths_def)
next
  case (3 x y zs)
  show ?case
  proof (cases ys rule: jsJoin.cases)
    case 1
    with 3 show ?thesis by (auto simp: plainPaths_def)
  next
    case (2 u)
    with 3 show ?thesis by (auto simp: plainPaths_def)
  next
    case (3 u v vs)
    have "x = u \<and> jsJoin (y # zs) = jsJoin (v # vs)"
      using "3.prems" 3 no_lf_split[of x u "jsJoin (y # zs)" "jsJoin (v # vs)"]
      by (simp add: plainPaths_def)
    moreover have "y # zs = v # vs"
      using "3.IH"[of "v # vs"] "3.prems" 3 calculation by (simp add: plainPaths_def)
    ultimately show ?thesis using 3 by simp
  qed
qed

subsection \<open>Tracked project roots\<close>

lemma demo_eval:
  "demo = \<lparr>delayNext = False, emitter = Some 0, disposables = Some 0, projects = Some [],
            lightTheme = Some False, restoreOffset = None,
            emitters = [\<lparr>e_disposed = False, handlersByEventName = (\<lambda>_. [])\<rparr>],
            disps = [Composite False [1, 2], Disposable False (Some (HostOff 0)),
                     Disposable False (Some (HostOff 1))],
            promises = [], rules = demoRules, styleSheets = demoSheets,
            stylePath = (\<lambda>f. Some (''/pkg/styles/'' @ f)),
            isLight = (\<lambda>c. c = [''255'', ''255'', ''255'']), queue = [], trace = [],
            seen = []\<rparr>"
  by (simp add: demo_def loadModule_def newObject_def reset_def init_def newComposite_def newEmitter_def
      newDisposable_def cd_add_def lookup_def Let_def)

text \<open>
  C2, as amended: \<^verbatim>\<open>setProjects\<close> emits nothing exactly when the new and the stored
  sequence give the same string when joined with line feeds. Where every path of both
  is non-empty and holds no line feed, this is exactly when the two sequences are
  equal as ordered sequences.
\<close>

theorem setProjects_silent_iff_joined_equal:
  assumes "projects w = Some stored"
  shows "(trace (snd (setProjects to w)) = trace w \<longleftrightarrow> jsJoin stored = jsJoin to)
       \<and> (plainPaths stored \<and> plainPaths to \<longrightarrow>
            (trace (snd (setProjects to w)) = trace w \<longleftrightarrow> to = stored))"
proof -
  have a: "trace (snd (setProjects to w)) = trace w \<longleftrightarrow> jsJoin stored = jsJoin to"
    using assms
    by (simp add: setProjects_def emitProjectsAvailable_def emitProjectsEmptied_def
        emitProjectsChanged_def emit_trace Let_def)
  moreover have "jsJoin stored = jsJoin to \<longleftrightarrow> to = stored"
    if "plainPaths stored" "plainPaths to"
    using that jsJoin_inj[of stored to] by auto
  ultimately show ?thesis by simp
qed

theorem setProjects_silent_iff_joined_equal_witness:
  "projects demo = Some []
   \<and> (trace (snd (setProjects [''x''] demo)) = trace demo \<longleftrightarrow> jsJoin [] = jsJoin [''x''])
   \<and> plainPaths [] \<and> plainPaths [''x'']
   \<and> (trace (snd (setProjects [''x''] demo)) = trace demo \<longleftrightarrow> [''x''] = [])"
proof -
  have p: "projects demo = Some []" by (simp add: demo_eval)
  have q: "plainPaths []" "plainPaths [''x'']" by (simp_all add: plainPaths_def)
  from setProjects_silent_iff_joined_equal[OF p, of "[''x'']"] p q show ?thesis by simp
qed

text \<open>
  The claim as stated fails: the stored sequence of the one path \<open>twoLines\<close> and the new
  sequence of the two paths \<open>a\<close> and \<open>b\<close> differ, and the call emits nothing.
\<close>

theorem setProjects_joined_equal_counterexample:
  "[''a'', ''b''] \<noteq> [twoLines]
   \<and> projects (snd (setProjects [twoLines] demo)) = Some [twoLines]
   \<and> trace (snd (setProjects [''a'', ''b''] (snd (setProjects [twoLines] demo))))
       = trace (snd (setProjects [twoLines] demo))"
  by (simp add: demo_eval setProjects_def emitProjectsAvailable_def emitProjectsChanged_def
      emit_def emitter_emit_def lookup_def twoLines_def Let_def)

text \<open>
  C3, as amended: when the joined strings of the stored and the new sequence differ
  (as they do for two different sequences of non-empty paths without line feeds), the
  call returns without error, having first stored the new sequence and then emitted,
  in this order, \<^verbatim>\<open>projects-available\<close> (new sequence non-empty) or \<^verbatim>\<open>projects-emptied\<close>
  (empty), without arguments, and \<^verbatim>\<open>projects-changed\<close> with the stored and the new
  sequence; it emits nothing else. The store comes before both emissions: each of the
  two is made with the new sequence in the field \<^verbatim>\<open>projects\<close> (and the flag \<^verbatim>\<open>lightTheme\<close>
  as it was), which is what a handler called by it finds there.
\<close>

theorem setProjects_emits_when_joined_differ:
  assumes "projects w = Some stored"
    and "jsJoin stored \<noteq> jsJoin to \<or> (plainPaths stored \<and> plainPaths to \<and> stored \<noteq> to)"
  shows "fst (setProjects to w) = Inr ()
       \<and> projects (snd (setProjects to w)) = Some to
       \<and> emissions (snd (setProjects to w)) =
           emissions w @
             [Emit (if to \<noteq> [] then ''projects-available'' else ''projects-emptied'') [],
              Emit ''projects-changed'' [VChange stored to]]
       \<and> seen (snd (setProjects to w)) =
           seen w @ [(Some to, lightTheme w), (Some to, lightTheme w)]"
proof -
  have d: "jsJoin stored \<noteq> jsJoin to"
    using assms(2) jsJoin_inj[of stored to] by auto
  show ?thesis
    using assms(1) d
    by (simp add: setProjects_def emitProjectsAvailable_def emitProjectsEmptied_def
        emitProjectsChanged_def emissions_def emit_trace emit_projects emit_lightTheme
        emit_seen Let_def)
qed

theorem setProjects_emits_when_joined_differ_witness:
  "projects demo = Some [] \<and> jsJoin [] \<noteq> jsJoin [''x'']
   \<and> fst (setProjects [''x''] demo) = Inr ()
   \<and> projects (snd (setProjects [''x''] demo)) = Some [''x'']
   \<and> emissions (snd (setProjects [''x''] demo)) =
        [Emit ''projects-available'' [], Emit ''projects-changed'' [VChange [] [''x'']]]
   \<and> seen (snd (setProjects [''x''] demo)) =
        [(Some [''x''], Some False), (Some [''x''], Some False)]"
proof -
  have p: "projects demo = Some []" and e: "emissions demo = []"
    and l: "lightTheme demo = Some False" and s: "seen demo = []"
    by (simp_all add: demo_eval emissions_def)
  have j: "jsJoin [] \<noteq> jsJoin [''x'']" by simp
  from setProjects_emits_when_joined_differ[OF p, of "[''x'']"] p j e l s show ?thesis by simp
qed

text \<open>
  The claim as stated fails: the new sequence of the one path \<open>twoLines\<close> differs from
  the stored sequence of \<open>a\<close> and \<open>b\<close>, and the call neither replaces the stored
  sequence nor emits.
\<close>

theorem setProjects_baseline_counterexample:
  "[twoLines] \<noteq> [''a'', ''b'']
   \<and> projects (snd (setProjects [''a'', ''b''] demo)) = Some [''a'', ''b'']
   \<and> projects (snd (setProjects [twoLines] (snd (setProjects [''a'', ''b''] demo))))
       = Some [''a'', ''b'']
   \<and> emissions (snd (setProjects [twoLines] (snd (setProjects [''a'', ''b''] demo))))
       = emissions (snd (setProjects [''a'', ''b''] demo))"
  by (simp add: demo_eval setProjects_def emitProjectsAvailable_def emitProjectsChanged_def
      emit_def emitter_emit_def lookup_def twoLines_def emissions_def Let_def)

subsection \<open>Theme brightness\<close>

lemma run_invariant:
  assumes "P w"
    and mark: "\<And>w r v. P w \<Longrightarrow> \<not> live v \<Longrightarrow> P (w\<lparr>disps := (disps w)[r := v]\<rparr>)"
    and act: "\<And>w a. P w \<Longrightarrow> P (act a w)"
  shows "P (run k w)"
  using assms(1)
proof (induction k w rule: run.induct)
  case (1 w)
  then show ?case by (simp add: run.simps)
next
  case (2 r k w)
  show ?case
  proof (cases "lookup (disps w) r")
    case None
    with 2 show ?thesis by (simp add: run.simps)
  next
    case (Some x)
    show ?thesis
    proof (cases x)
      case (Disposable b a)
      show ?thesis
      proof (cases b)
        case True
        with 2 Some Disposable show ?thesis by (simp add: run.simps)
      next
        case False
        define w1 where "w1 = w\<lparr>disps := (disps w)[r := Disposable True a]\<rparr>"
        define w2 where "w2 = (case a of None \<Rightarrow> w1 | Some g \<Rightarrow> act g w1)"
        have step: "run (Dispose r # k) w = run k (w2\<lparr>disps := (disps w2)[r := Disposable True None]\<rparr>)"
          unfolding w1_def w2_def using Some Disposable False by (simp add: run.simps Let_def)
        have "P w1" unfolding w1_def using "2.prems" by (rule mark) simp
        then have "P w2" unfolding w2_def using act by (cases a) simp_all
        then have "P (w2\<lparr>disps := (disps w2)[r := Disposable True None]\<rparr>)"
          by (rule mark) simp
        then show ?thesis
          unfolding step using "2.IH"(3)[OF Some Disposable _ w1_def w2_def] False by simp
      qed
    next
      case (Composite b ms)
      show ?thesis
      proof (cases b)
        case True
        with 2 Some Composite show ?thesis by (simp add: run.simps)
      next
        case False
        have "P (w\<lparr>disps := (disps w)[r := Composite True ms]\<rparr>)"
          using "2.prems" by (rule mark) simp
        with "2.IH"(5)[OF Some Composite] Some Composite False show ?thesis
          by (simp add: run.simps)
      qed
    qed
  qed
next
  case (3 r k w)
  have "P (w\<lparr>disps := (disps w)[r := Composite True []]\<rparr>)"
    using "3.prems" by (rule mark) simp
  with "3.IH" show ?case by (simp add: run.simps)
qed

lemma map_ruleText_update:
  "lookup rs r = Some rl \<Longrightarrow> map ruleText (rs[r := rl\<lparr>styleTop := v\<rparr>]) = map ruleText rs"
  by (auto simp: lookup_def ruleText_def map_update list_update_same_conv split: if_splits)

lemma act_ruleText: "map ruleText (rules (act a w)) = map ruleText (rules w)"
  by (cases a)
     (auto simp: emitter_off_def cd_remove_def map_ruleText_update
           split: option.splits dobj.splits bool.splits)

lemma run_ruleText: "map ruleText (rules (run k w)) = map ruleText (rules w)"
  by (rule run_invariant[where P = "\<lambda>w'. map ruleText (rules w') = map ruleText (rules w)"])
     (simp_all add: act_ruleText)

lemma invoke_ruleText: "map ruleText (rules (invoke h v w)) = map ruleText (rules w)"
  by (cases h) (simp_all add: dispose_def run_ruleText resolve_def split: option.splits promise.splits)

lemma dispatchAll_ruleText: "map ruleText (rules (dispatchAll hs v w)) = map ruleText (rules w)"
  by (induction hs arbitrary: w) (simp_all add: invoke_ruleText)

lemma emit_ruleText: "map ruleText (rules (emit n args w)) = map ruleText (rules w)"
  by (simp add: emit_def emitter_emit_def dispatchAll_ruleText Let_def split: option.splits)

lemma lookup_ruleText:
  assumes "map ruleText rs = map ruleText rs'"
  shows "(lookup rs r = None \<longrightarrow> lookup rs' r = None)
       \<and> (\<forall>a. lookup rs r = Some a \<longrightarrow>
              (\<exists>b. lookup rs' r = Some b \<and> selectorText b = selectorText a \<and> cssText b = cssText a))"
proof -
  have len: "length rs = length rs'" using assms by (metis length_map)
  have "ruleText (rs ! r) = ruleText (rs' ! r)" if "r < length rs"
    using that assms len by (metis nth_map)
  then show ?thesis using len by (auto simp: lookup_def ruleText_def)
qed

lemma themeRule_ruleText:
  "map ruleText rs = map ruleText rs' \<Longrightarrow> themeRule refs rs = themeRule refs rs'"
proof (induction refs)
  case Nil
  then show ?case by simp
next
  case (Cons r refs)
  show ?case
  proof (cases "lookup rs r")
    case None
    with lookup_ruleText[OF Cons.prems, of r] show ?thesis by simp
  next
    case (Some a)
    with lookup_ruleText[OF Cons.prems, of r] obtain b where
      "lookup rs' r = Some b" "selectorText b = selectorText a" "cssText b = cssText a"
      by auto
    with Some Cons show ?thesis by simp
  qed
qed

lemma reading_cong:
  assumes "stylePath w = stylePath w'" "isLight w = isLight w'" "styleSheets w = styleSheets w'"
    and "map ruleText (rules w) = map ruleText (rules w')"
  shows "reading w = reading w'"
proof -
  have "themeRule refs (rules w) = themeRule refs (rules w')" for refs
    using assms(4) by (rule themeRule_ruleText)
  then have "getThemeColour w = getThemeColour w'"
    using assms(1,3) by (simp add: getThemeColour_def getStyleElement_def split: option.splits sum.splits)
  then show ?thesis using assms(2) by (simp add: reading_def split: sum.splits option.splits)
qed

lemma reading_after_emit:
  "reading ((emit n args w)\<lparr>styleSheets := s\<rparr>) = reading (w\<lparr>styleSheets := s\<rparr>)"
proof -
  have "stylePath (emit n args w) = stylePath w" "isLight (emit n args w) = isLight w"
    by (rule emit_frame; simp)+
  then show ?thesis
    by (intro reading_cong) (simp_all add: emit_ruleText)
qed

lemma reading_after_checkMotif:
  "reading ((snd (checkMotif w))\<lparr>styleSheets := s\<rparr>) = reading (w\<lparr>styleSheets := s\<rparr>)"
proof -
  have "reading (w\<lparr>lightTheme := l, styleSheets := s\<rparr>) = reading (w\<lparr>styleSheets := s\<rparr>)" for l
    by (intro reading_cong) simp_all
  then show ?thesis
    by (simp add: checkMotif_def emitMotifChanged_def reading_after_emit Let_def
        split: sum.splits option.splits)
qed

lemma isMotif_calls [simp]: "filter isMotif (calls hs v) = []"
  by (induction hs v rule: calls.induct) simp_all

lemma checkMotif_step:
  "lightTheme (snd (checkMotif w)) = (case reading w of None \<Rightarrow> lightTheme w | Some b \<Rightarrow> Some b)"
  "motifCount (snd (checkMotif w)) = motifCount w + flips (lightTheme w) [reading w]"
proof -
  have l: "lightTheme (emit n args w') = lightTheme w'" for n args w'
    by (rule emit_frame) simp_all
  show "lightTheme (snd (checkMotif w)) = (case reading w of None \<Rightarrow> lightTheme w | Some b \<Rightarrow> Some b)"
    by (auto simp: checkMotif_def reading_def emitMotifChanged_def l Let_def
        split: sum.splits option.splits)
  show "motifCount (snd (checkMotif w)) = motifCount w + flips (lightTheme w) [reading w]"
    by (auto simp: checkMotif_def reading_def emitMotifChanged_def motifCount_def emit_trace Let_def
        split: sum.splits option.splits)
qed

lemma checkMotifs_count:
  "motifCount (checkMotifs ss w) =
     motifCount w + flips (lightTheme w) (map (\<lambda>s. reading (w\<lparr>styleSheets := s\<rparr>)) ss)"
proof (induction ss arbitrary: w)
  case Nil
  then show ?case by simp
next
  case (Cons s ss)
  define w' where "w' = snd (checkMotif (w\<lparr>styleSheets := s\<rparr>))"
  have r: "map (\<lambda>t. reading (w'\<lparr>styleSheets := t\<rparr>)) ss = map (\<lambda>t. reading (w\<lparr>styleSheets := t\<rparr>)) ss"
    unfolding w'_def by (simp add: reading_after_checkMotif)
  have "motifCount (checkMotifs (s # ss) w) = motifCount w' + flips (lightTheme w') (map (\<lambda>t. reading (w'\<lparr>styleSheets := t\<rparr>)) ss)"
    unfolding w'_def using Cons.IH by simp
  also have "\<dots> = motifCount w + flips (lightTheme w) (map (\<lambda>s. reading (w\<lparr>styleSheets := s\<rparr>)) (s # ss))"
  proof -
    have m: "motifCount (w\<lparr>styleSheets := s\<rparr>) = motifCount w"
      by (simp add: motifCount_def)
    show ?thesis
      unfolding r unfolding w'_def
      by (cases "reading (w\<lparr>styleSheets := s\<rparr>)") (simp_all add: checkMotif_step m)
  qed
  finally show ?case .
qed

lemma flips_same:
  "\<forall>r \<in> set rs. r = Some b \<Longrightarrow> flips st rs = (if rs \<noteq> [] \<and> st \<noteq> Some b then 1 else 0)"
  by (induction st rs rule: flips.induct) auto

lemma flips_alternate:
  "flips st (map Some (alternate b n)) = (if st = Some b then n - 1 else n)"
  by (induction n arbitrary: st b) auto

lemma demo_reading:
  "reading (demo\<lparr>styleSheets := demoSheets\<rparr>) = Some True"
  "reading (demo\<lparr>styleSheets := darkSheets\<rparr>) = Some False"
  by (simp_all add: reading_def getThemeColour_def getStyleElement_def demo_eval demoSheets_def
      darkSheets_def demoRules_def lookup_def rgbHere_def lineTerminator_def numChar_def)

text \<open>
  C5: \<^verbatim>\<open>checkMotif\<close> leaves the state as it is when no flag can be derived or the
  derived flag is the stored one; when the derived flag differs from the stored one,
  it stores the derived flag and emits \<^verbatim>\<open>motif-changed\<close> with it, once. Over a run of
  calls the number of \<^verbatim>\<open>motif-changed\<close> emissions is the number of readings that differ
  from the reading before them: at most one (at the first call) when all readings
  are the same flag, and one for every call (but the first, when it repeats the
  stored flag) when the readings alternate.
\<close>

theorem checkMotif_edge_trigger:
  "(reading w = None \<or> reading w = lightTheme w \<longrightarrow> snd (checkMotif w) = w)
   \<and> (\<forall>b. reading w = Some b \<and> lightTheme w \<noteq> Some b \<longrightarrow>
          lightTheme (snd (checkMotif w)) = Some b
        \<and> emissions (snd (checkMotif w)) = emissions w @ [Emit ''motif-changed'' [VBool b]])
   \<and> motifCount (checkMotifs ss w) =
        motifCount w + flips (lightTheme w) (map (\<lambda>s. reading (w\<lparr>styleSheets := s\<rparr>)) ss)
   \<and> ((\<forall>s \<in> set ss. reading (w\<lparr>styleSheets := s\<rparr>) = Some c) \<longrightarrow>
        motifCount (checkMotifs ss w) =
          motifCount w + (if ss \<noteq> [] \<and> lightTheme w \<noteq> Some c then 1 else 0))
   \<and> (map (\<lambda>s. reading (w\<lparr>styleSheets := s\<rparr>)) ss = map Some (alternate c (length ss)) \<longrightarrow>
        motifCount (checkMotifs ss w) =
          motifCount w + (if lightTheme w = Some c then length ss - 1 else length ss))"
proof -
  have a: "snd (checkMotif w) = w" if "reading w = None \<or> reading w = lightTheme w"
    using that
    by (auto simp: checkMotif_def reading_def Let_def split: sum.splits option.splits)
  have l: "lightTheme (emit n args w') = lightTheme w'" for n args w'
    by (rule emit_frame) simp_all
  have b: "lightTheme (snd (checkMotif w)) = Some b
        \<and> emissions (snd (checkMotif w)) = emissions w @ [Emit ''motif-changed'' [VBool b]]"
    if "reading w = Some b" "lightTheme w \<noteq> Some b" for b
    using that
    by (auto simp: checkMotif_def reading_def emitMotifChanged_def l emissions_def emit_trace Let_def
        split: sum.splits option.splits)
  have c: "motifCount (checkMotifs ss w) =
        motifCount w + flips (lightTheme w) (map (\<lambda>s. reading (w\<lparr>styleSheets := s\<rparr>)) ss)"
    by (rule checkMotifs_count)
  have d: "motifCount (checkMotifs ss w) =
          motifCount w + (if ss \<noteq> [] \<and> lightTheme w \<noteq> Some c then 1 else 0)"
    if "\<forall>s \<in> set ss. reading (w\<lparr>styleSheets := s\<rparr>) = Some c"
    unfolding c using that
    by (subst flips_same[where b = c]) auto
  have e: "motifCount (checkMotifs ss w) =
          motifCount w + (if lightTheme w = Some c then length ss - 1 else length ss)"
    if "map (\<lambda>s. reading (w\<lparr>styleSheets := s\<rparr>)) ss = map Some (alternate c (length ss))"
    unfolding c that by (simp add: flips_alternate)
  from a b c d e show ?thesis by blast
qed

theorem checkMotif_edge_trigger_witness:
  "reading (demo\<lparr>styleSheets := darkSheets\<rparr>) = lightTheme (demo\<lparr>styleSheets := darkSheets\<rparr>)
   \<and> snd (checkMotif (demo\<lparr>styleSheets := darkSheets\<rparr>)) = demo\<lparr>styleSheets := darkSheets\<rparr>
   \<and> reading demo = Some True \<and> lightTheme demo = Some False
   \<and> lightTheme (snd (checkMotif demo)) = Some True
   \<and> emissions (snd (checkMotif demo)) = [Emit ''motif-changed'' [VBool True]]
   \<and> reading (demo\<lparr>styleSheets := demoSheets\<rparr>) = Some True
   \<and> motifCount (checkMotifs [demoSheets, demoSheets] demo) = 1
   \<and> map (\<lambda>s. reading (demo\<lparr>styleSheets := s\<rparr>)) [demoSheets, darkSheets, demoSheets]
       = map Some (alternate True (length [demoSheets, darkSheets, demoSheets]))
   \<and> motifCount (checkMotifs [demoSheets, darkSheets, demoSheets] demo) = 3"
proof -
  have same: "demo\<lparr>styleSheets := demoSheets\<rparr> = demo"
    by (simp add: demo_eval)
  have r: "reading demo = Some True" "reading (demo\<lparr>styleSheets := darkSheets\<rparr>) = Some False"
          "reading (demo\<lparr>styleSheets := demoSheets\<rparr>) = Some True"
    using demo_reading same by simp_all
  have l: "lightTheme demo = Some False" "lightTheme (demo\<lparr>styleSheets := darkSheets\<rparr>) = Some False"
    and z: "emissions demo = []" "motifCount demo = 0"
    by (simp_all add: demo_eval emissions_def motifCount_def)
  from checkMotif_edge_trigger[of "demo\<lparr>styleSheets := darkSheets\<rparr>" "[]" True]
  have 1: "snd (checkMotif (demo\<lparr>styleSheets := darkSheets\<rparr>)) = demo\<lparr>styleSheets := darkSheets\<rparr>"
    using r l by simp
  from checkMotif_edge_trigger[of demo "[demoSheets, demoSheets]" True]
  have 2: "lightTheme (snd (checkMotif demo)) = Some True"
          "emissions (snd (checkMotif demo)) = [Emit ''motif-changed'' [VBool True]]"
          "motifCount (checkMotifs [demoSheets, demoSheets] demo) = 1"
    using r l z by auto
  from checkMotif_edge_trigger[of demo "[demoSheets, darkSheets, demoSheets]" True]
  have 3: "motifCount (checkMotifs [demoSheets, darkSheets, demoSheets] demo) = 3"
    using r l z by simp
  from 1 2 3 r l show ?thesis by simp
qed

text \<open>
  C7 fails on the code: in a document that has no style sheet of the package's colour
  file, \<^verbatim>\<open>getStyleElement\<close> returns \<^verbatim>\<open>null\<close>, \<^verbatim>\<open>getThemeColour\<close> reads \<^verbatim>\<open>cssRules\<close> of it and
  raises a TypeError, and \<^verbatim>\<open>checkMotif\<close> raises with it.
\<close>

theorem getThemeColour_without_sheet:
  "getStyleElement ''colours.less'' (demo\<lparr>styleSheets := []\<rparr>) = Inr None
   \<and> getThemeColour (demo\<lparr>styleSheets := []\<rparr>) = Inl TypeError
   \<and> checkMotif (demo\<lparr>styleSheets := []\<rparr>) = (Inl TypeError, demo\<lparr>styleSheets := []\<rparr>)"
  by (simp add: checkMotif_def getThemeColour_def getStyleElement_def demo_eval)

subsection \<open>Subscribing and emitting\<close>

lemma subscribe_delayNext: "delayNext (snd (subscribe n h w)) = False"
  by (auto simp: subscribe_def emitter_on_def newDisposable_def Let_def split: option.splits)

lemma subscribe_live:
  assumes "emitter w = Some e" "lookup (emitters w) e = Some eo" "\<not> e_disposed eo"
  shows "fst (subscribe n h w) = Inr (length (disps w))"
    and "registered (snd (subscribe n h w)) m =
           (if m = n then registered w n @ [if delayNext w then Deferred h else h] else registered w m)"
    and "trace (snd (subscribe n h w)) = trace w"
    and "queue (snd (subscribe n h w)) = queue w"
    and "emitter (snd (subscribe n h w)) = Some e"
    and "\<exists>eo'. lookup (emitters (snd (subscribe n h w))) e = Some eo' \<and> \<not> e_disposed eo'"
  using assms
  by (auto simp: subscribe_def emitter_on_def newDisposable_def registered_def Let_def lookup_def
      split: if_splits)

lemma Call_in_calls: "Call n v \<in> set (calls hs u) \<longleftrightarrow> Fn n \<in> set hs \<and> v = u"
  by (induction hs u rule: calls.induct) auto

lemma invoke_queue_grows: "\<exists>x. queue (invoke h v w) = queue w @ x"
  by (cases h) (simp_all add: dispose_frame resolve_def split: option.splits promise.splits)

lemma turn_queue: "queue w = t # q \<Longrightarrow> \<exists>x. queue (turn w) = q @ x"
  using invoke_queue_grows[of "fst t" "snd t" "w\<lparr>queue := q\<rparr>"]
  by (cases t) (simp add: turn_def)

lemma turns_reach: "queue w = q0 @ t # r \<Longrightarrow> \<exists>r'. queue ((turn ^^ length q0) w) = t # r'"
proof (induction q0 arbitrary: w r)
  case Nil
  then show ?case by simp
next
  case (Cons a q0)
  from turn_queue[of w a "q0 @ t # r"] Cons.prems obtain x where
    "queue (turn w) = q0 @ t # (r @ x)" by auto
  from Cons.IH[OF this] show ?case by (simp add: funpow_swap1)
qed

text \<open>
  C1: on a hub with a live emitter, let \<open>h1\<close> be subscribed to an event name through
  \<^verbatim>\<open>delay\<close> and \<open>h2\<close> be subscribed to it next, without. Then the hub holds the wrapped
  \<open>h1\<close> and \<open>h2\<close> after the handlers it had. One \<^verbatim>\<open>emit\<close> of the name calls \<open>h2\<close> before
  it returns (the call is the last entry of the trace then) and gives the call of
  \<open>h1\<close> to the scheduler; if \<open>h1\<close> is another function than \<open>h2\<close> and was not subscribed
  directly before, \<open>h1\<close> is not called during the \<^verbatim>\<open>emit\<close>. The call of \<open>h1\<close> is made by
  the turn of the scheduler that follows the turns of the tasks given before it. The
  flag is false after the subscription through \<^verbatim>\<open>delay\<close>, and after any call of
  \<^verbatim>\<open>subscribe\<close> whatever the state.
\<close>

theorem deferred_handler_runs_on_later_turn:
  assumes "emitter w = Some e" "lookup (emitters w) e = Some eo" "\<not> e_disposed eo"
    and "w1 = snd (subscribe n (Fn h1) (delay w))"
    and "w2 = snd (subscribe n (Fn h2) w1)"
    and "w3 = emit n args w2"
    and "k = length (queue w) + length (deferrals (registered w n) (firstArg args))"
  shows "registered w2 n = registered w n @ [Deferred (Fn h1), Fn h2]
       \<and> trace w3 = trace w @ Emit n args # calls (registered w n) (firstArg args) @ [Call h2 (firstArg args)]
       \<and> queue w3 = queue w @ deferrals (registered w n) (firstArg args) @ [(Fn h1, firstArg args)]
       \<and> (h1 \<noteq> h2 \<and> Fn h1 \<notin> set (registered w n) \<longrightarrow>
            Call h1 (firstArg args) \<notin> set (drop (length (trace w)) (trace w3)))
       \<and> trace ((turn ^^ Suc k) w3) = trace ((turn ^^ k) w3) @ [Call h1 (firstArg args)]
       \<and> delayNext w1 = False
       \<and> delayNext (snd (subscribe m g u)) = False"
proof -
  have d: "emitter (delay w) = Some e" "lookup (emitters (delay w)) e = Some eo" "delayNext (delay w)"
    "registered (delay w) = registered w" "trace (delay w) = trace w" "queue (delay w) = queue w"
    using assms(1,2) by (simp_all add: delay_def registered_def fun_eq_iff)
  note s1 = subscribe_live[OF d(1,2) assms(3), of n "Fn h1", folded assms(4)]
  from s1(6) obtain eo1 where eo1: "lookup (emitters w1) e = Some eo1" "\<not> e_disposed eo1" by auto
  have dn: "delayNext w1 = False" unfolding assms(4) by (rule subscribe_delayNext)
  note s2 = subscribe_live[OF s1(5) eo1, of n "Fn h2", folded assms(5)]
  have r2: "registered w2 n = registered w n @ [Deferred (Fn h1), Fn h2]"
    using s1(2)[of n] s2(2)[of n] d dn by simp
  have c: "calls (xs @ [Deferred (Fn h1), Fn h2]) v = calls xs v @ [Call h2 v]" for xs v
    by (induction xs v rule: calls.induct) simp_all
  have f: "deferrals (xs @ [Deferred (Fn h1), Fn h2]) v = deferrals xs v @ [(Fn h1, v)]" for xs v
    by (induction xs v rule: deferrals.induct) simp_all
  have t3: "trace w3 = trace w @ Emit n args # calls (registered w n) (firstArg args) @ [Call h2 (firstArg args)]"
    unfolding assms(6) emit_trace r2 c using s1(3) s2(3) d by simp
  have q3: "queue w3 = queue w @ deferrals (registered w n) (firstArg args) @ [(Fn h1, firstArg args)]"
    unfolding assms(6) emit_queue r2 f using s1(4) s2(4) d by simp
  have inline: "Call h1 (firstArg args) \<notin> set (drop (length (trace w)) (trace w3))"
    if "h1 \<noteq> h2" "Fn h1 \<notin> set (registered w n)"
    unfolding t3 using that by (simp add: Call_in_calls)
  have "queue w3 = (queue w @ deferrals (registered w n) (firstArg args)) @ (Fn h1, firstArg args) # []"
    using q3 by simp
  from turns_reach[OF this] obtain r' where
    "queue ((turn ^^ k) w3) = (Fn h1, firstArg args) # r'"
    unfolding assms(7) by auto
  then have later: "trace ((turn ^^ Suc k) w3) = trace ((turn ^^ k) w3) @ [Call h1 (firstArg args)]"
    by (simp add: turn_def)
  from r2 t3 q3 inline later dn subscribe_delayNext show ?thesis by blast
qed

lemma demo_fields:
  "emitter demo = Some 0"
  "lookup (emitters demo) 0 = Some \<lparr>e_disposed = False, handlersByEventName = (\<lambda>_. [])\<rparr>"
  "registered demo n = []" "trace demo = []" "queue demo = []"
  by (simp_all add: demo_eval registered_def lookup_def)

theorem deferred_handler_runs_on_later_turn_witness:
  "emitter demo = Some 0
   \<and> lookup (emitters demo) 0 = Some \<lparr>e_disposed = False, handlersByEventName = (\<lambda>_. [])\<rparr>
   \<and> trace demoEmitted = [Emit ''open-file'' [VObj 7], Call 2 (VObj 7)]
   \<and> queue demoEmitted = [(Fn 1, VObj 7)]
   \<and> (1::nat) \<noteq> 2 \<and> Fn 1 \<notin> set (registered demo ''open-file'')
   \<and> Call 1 (VObj 7) \<notin> set (drop (length (trace demo)) (trace demoEmitted))
   \<and> trace (turn demoEmitted) = [Emit ''open-file'' [VObj 7], Call 2 (VObj 7), Call 1 (VObj 7)]
   \<and> delayNext (snd (subscribe ''open-file'' (Fn 1) (delay demo))) = False"
proof -
  have e: "\<not> e_disposed \<lparr>e_disposed = False, handlersByEventName = (\<lambda>_. [])\<rparr>" by simp
  from deferred_handler_runs_on_later_turn[where w = demo and n = "''open-file''" and ?h1.0 = 1
      and ?h2.0 = 2 and args = "[VObj 7]", OF demo_fields(1,2) e refl refl refl refl,
      folded demoEmitted_def]
  show ?thesis
    by (simp add: demo_fields firstArg_def)
qed

lemma emitter_emit_frame:
  "stores_only f \<Longrightarrow> (\<And>w t. f (w\<lparr>trace := t\<rparr>) = f w) \<Longrightarrow> (\<And>w q. f (w\<lparr>queue := q\<rparr>) = f w)
   \<Longrightarrow> (\<And>w p. f (w\<lparr>promises := p\<rparr>) = f w) \<Longrightarrow> f (emitter_emit e n args w) = f w"
  by (simp add: emitter_emit_def dispatchAll_frame split: option.splits)

lemma small_frames:
  assumes "stores_only f"
  shows "f (cd_add c d w) = f w" "f (cd_remove c d w) = f w"
    "f (snd (newDisposable a w)) = f w" "f (snd (newComposite ms w)) = f w"
  using assms
  by (simp_all add: stores_only_def cd_add_def cd_remove_def newDisposable_def newComposite_def
      split: option.splits dobj.splits bool.splits)

lemma init_cases:
  "snd (init w) = w\<lparr>projects := Some [], lightTheme := Some False\<rparr> \<or>
   (\<exists>d a b. snd (init w) = cd_add d b (cd_add d a
      (snd (newDisposable (HostOff 1) (snd (newDisposable (HostOff 0)
         (w\<lparr>projects := Some [], lightTheme := Some False\<rparr>)))))))"
  by (auto simp: init_def Let_def split: option.splits prod.splits)

lemma delayNext_preserved:
  "delayNext (emit n args w) = delayNext w"
  "delayNext (dispose r w) = delayNext w"
  "delayNext (reset w) = delayNext w"
  "delayNext (snd (init w)) = delayNext w"
  "delayNext (snd (setProjects to w)) = delayNext w"
  "delayNext (snd (checkMotif w)) = delayNext w"
  "delayNext (snd (fixOffset w)) = delayNext w"
  "delayNext (snd (waitToSave ed w)) = delayNext w"
  "delayNext (turn w) = delayNext w"
  "delayNext (pathChanged ed file w) = delayNext w"
  "delayNext (destroyed ed w) = delayNext w"
proof -
  show e: "delayNext (emit n args w) = delayNext w" for n args w
    by (rule emit_frame) simp_all
  show d: "delayNext (dispose r w) = delayNext w" for r w
    by (rule dispose_frame) simp
  show "delayNext (reset w) = delayNext w"
    by (simp add: reset_def d emitter_dispose_def newComposite_def newEmitter_def Let_def
        split: option.splits)
  show "delayNext (snd (init w)) = delayNext w"
    using init_cases[of w] by (auto simp: small_frames newDisposable_def)
  show "delayNext (snd (setProjects to w)) = delayNext w"
    by (simp add: setProjects_def e emitProjectsAvailable_def emitProjectsEmptied_def
        emitProjectsChanged_def Let_def split: option.splits)
  show "delayNext (snd (checkMotif w)) = delayNext w"
    by (simp add: checkMotif_def e emitMotifChanged_def Let_def split: option.splits sum.splits)
  have i: "delayNext (snd (installRestore r off u)) = delayNext u" for r off u
    by (simp add: installRestore_def newDisposable_def cd_add_def Let_def
        split: option.splits dobj.splits bool.splits)
  show "delayNext (snd (fixOffset w)) = delayNext w"
    by (simp add: fixOffset_def i d cd_remove_def Let_def
        split: option.splits sum.splits dobj.splits bool.splits prod.splits)
  show "delayNext (snd (waitToSave ed w)) = delayNext w"
    by (simp add: waitToSave_def onDidDestroy_def onDidChangePath_def emitter_on_def
        newDisposable_def newComposite_def reject_def cd_add_def Let_def
        split: option.splits sum.splits dobj.splits bool.splits prod.splits promise.splits)
  show "delayNext (turn w) = delayNext w"
    by (simp add: turn_def invoke_frame split: list.splits prod.splits)
  show "delayNext (pathChanged ed file w) = delayNext w"
    unfolding pathChanged_def by (rule emitter_emit_frame) simp_all
  show "delayNext (destroyed ed w) = delayNext w"
    unfolding destroyed_def by (rule emitter_emit_frame) simp_all
qed

lemma perform_delayNext: "\<not> isSubscribe x \<Longrightarrow> delayNext w \<Longrightarrow> delayNext (perform x w)"
  by (cases x) (simp_all add: delayNext_preserved delay_def)

lemma performAll_delayNext:
  "list_all (\<lambda>x. \<not> isSubscribe x) ops \<Longrightarrow> delayNext w \<Longrightarrow> delayNext (performAll ops w)"
  by (induction ops arbitrary: w) (simp_all add: perform_delayNext)

lemma reset_hub:
  "emitter (reset w) = Some (length (emitters (reset w)) - 1)"
  "registered (reset w) n = []"
  "\<exists>eo. lookup (emitters (reset w)) (length (emitters (reset w)) - 1) = Some eo \<and> \<not> e_disposed eo"
  by (simp_all add: reset_def newComposite_def newEmitter_def registered_def Let_def split: option.splits)

subsection \<open>The flag and the reset\<close>

text \<open>
  C10: \<^verbatim>\<open>reset()\<close> leaves \<^verbatim>\<open>delayNext\<close> as it is. Reading \<^verbatim>\<open>delay\<close> sets the flag; after
  \<^verbatim>\<open>delay\<close> and \<^verbatim>\<open>reset()\<close> the next \<^verbatim>\<open>subscribe\<close> returns a handle and registers the wrapped
  handler, alone, on the new emitter; and the flag set by \<^verbatim>\<open>delay\<close> stays set through
  every sequence of operations, turns and signals that holds no \<^verbatim>\<open>subscribe\<close>.
\<close>

theorem reset_keeps_delay_flag:
  "delayNext (reset w) = delayNext w
   \<and> delayNext (delay w)
   \<and> fst (subscribe n h (reset (delay w))) = Inr (length (disps (reset (delay w))))
   \<and> registered (snd (subscribe n h (reset (delay w)))) n = [Deferred h]
   \<and> (list_all (\<lambda>x. \<not> isSubscribe x) ops \<longrightarrow> delayNext (performAll ops (delay w)))"
proof -
  have d: "delayNext (delay w)" by (simp add: delay_def)
  then have dr: "delayNext (reset (delay w))" by (simp add: delayNext_preserved)
  from reset_hub(3)[of "delay w"] obtain eo where
    eo: "lookup (emitters (reset (delay w))) (length (emitters (reset (delay w))) - 1) = Some eo"
        "\<not> e_disposed eo" by auto
  note s = subscribe_live[OF reset_hub(1) eo, of n h]
  have "registered (snd (subscribe n h (reset (delay w)))) n = [Deferred h]"
    using s(2)[of n] dr by (simp add: reset_hub)
  with s(1) d performAll_delayNext[of ops "delay w"] show ?thesis
    by (simp add: delayNext_preserved)
qed

theorem reset_keeps_delay_flag_witness:
  "delayNext (reset (delay demo))
   \<and> registered (snd (subscribe ''open-file'' (Fn 1) (reset (delay demo)))) ''open-file''
       = [Deferred (Fn 1)]
   \<and> list_all (\<lambda>x. \<not> isSubscribe x)
        [Reset, EmitOp ''open-file'' [], SetProjects [''x''], CheckMotif, FixOffset, Turn]
   \<and> delayNext (performAll
        [Reset, EmitOp ''open-file'' [], SetProjects [''x''], CheckMotif, FixOffset, Turn]
        (delay demo))"
  using reset_keeps_delay_flag[of "delay demo" "''open-file''" "Fn 1"
      "[Reset, EmitOp ''open-file'' [], SetProjects [''x''], CheckMotif, FixOffset, Turn]"]
    reset_keeps_delay_flag[of demo "''open-file''" "Fn 1"
      "[Reset, EmitOp ''open-file'' [], SetProjects [''x''], CheckMotif, FixOffset, Turn]"]
  by (simp add: delay_def)

lemma narrows_refl [simp]: "narrows w w"
  by (simp add: narrows_def)

lemma narrows_trans: "narrows u v \<Longrightarrow> narrows v w \<Longrightarrow> narrows u w"
  by (auto simp: narrows_def)

lemma narrows_fields [simp]:
  "narrows (u\<lparr>disps := d\<rparr>) w = narrows u w"
  "narrows (u\<lparr>rules := r\<rparr>) w = narrows u w"
  "narrows (u\<lparr>promises := p\<rparr>) w = narrows u w"
  "narrows (u\<lparr>trace := t\<rparr>) w = narrows u w"
  "narrows (u\<lparr>queue := q\<rparr>) w = narrows u w"
  "narrows (u\<lparr>projects := ps\<rparr>) w = narrows u w"
  "narrows (u\<lparr>lightTheme := l\<rparr>) w = narrows u w"
  "narrows (u\<lparr>restoreOffset := ro\<rparr>) w = narrows u w"
  "narrows (u\<lparr>delayNext := b\<rparr>) w = narrows u w"
  "narrows (u\<lparr>seen := sn\<rparr>) w = narrows u w"
  by (simp_all add: narrows_def registered_def)

lemma narrows_fields' [simp]:
  "narrows u (w\<lparr>disps := d\<rparr>) = narrows u w"
  "narrows u (w\<lparr>rules := r\<rparr>) = narrows u w"
  "narrows u (w\<lparr>promises := p\<rparr>) = narrows u w"
  "narrows u (w\<lparr>trace := t\<rparr>) = narrows u w"
  "narrows u (w\<lparr>queue := q\<rparr>) = narrows u w"
  "narrows u (w\<lparr>projects := ps\<rparr>) = narrows u w"
  "narrows u (w\<lparr>lightTheme := l\<rparr>) = narrows u w"
  "narrows u (w\<lparr>restoreOffset := ro\<rparr>) = narrows u w"
  "narrows u (w\<lparr>delayNext := b\<rparr>) = narrows u w"
  "narrows u (w\<lparr>seen := sn\<rparr>) = narrows u w"
  by (simp_all add: narrows_def registered_def)

lemma registered_emitter_off:
  "lookup (emitters w) e = Some eo \<Longrightarrow> \<not> e_disposed eo \<Longrightarrow>
   registered (emitter_off e n h w) m =
     (if emitter w = Some e \<and> m = n then remove1 h (registered w m) else registered w m)"
  by (cases "emitter w") (auto simp: registered_def emitter_off_def lookup_def nth_list_update split: if_splits)

lemma narrows_emitter_off: "narrows (emitter_off e n h w) w"
proof (cases "lookup (emitters w) e")
  case None
  then show ?thesis by (simp add: emitter_off_def)
next
  case (Some eo)
  show ?thesis
  proof (cases "e_disposed eo")
    case True
    with Some show ?thesis by (simp add: emitter_off_def)
  next
    case False
    have "emitter (emitter_off e n h w) = emitter w"
      by (simp add: emitter_off_def split: option.splits)
    then show ?thesis
      using set_remove1_subset[of h "registered w n"]
      by (auto simp: narrows_def registered_emitter_off[OF Some False])
  qed
qed

lemma narrows_act: "narrows (act a w) w"
  by (cases a) (auto simp: narrows_emitter_off cd_remove_def split: option.splits dobj.splits bool.splits)

lemma narrows_run: "narrows (run k w) w"
proof (rule run_invariant[where P = "\<lambda>u. narrows u w"])
  show "narrows w w" by simp
  show "narrows (u\<lparr>disps := (disps u)[r := v]\<rparr>) w" if "narrows u w" for u r v
    using that by simp
  show "narrows (act a u) w" if "narrows u w" for u a
    using narrows_act that by (rule narrows_trans)
qed

lemma narrows_invoke: "narrows (invoke h v w) w"
  by (cases h) (simp_all add: dispose_def narrows_run resolve_def split: option.splits promise.splits)

lemma narrows_dispatchAll: "narrows (dispatchAll hs v w) w"
proof (induction hs arbitrary: w)
  case Nil
  then show ?case by simp
next
  case (Cons h hs)
  from Cons.IH[of "invoke h v w"] narrows_invoke[of h v w] show ?case
    by (auto intro: narrows_trans)
qed

lemma narrows_emit: "narrows (emit n args w) w"
  using narrows_dispatchAll[of _ _ "w\<lparr>trace := trace w @ [Emit n args],
      seen := seen w @ [(projects w, lightTheme w)]\<rparr>"]
  by (simp add: emit_def emitter_emit_def Let_def split: option.splits)

lemma extends_trans: "extends f u v \<Longrightarrow> extends f v w \<Longrightarrow> extends f u w"
  unfolding extends_def by (elim conjE exE) (auto simp: Ball_def)

lemma extends_narrows:
  assumes "\<forall>m. \<forall>g \<in> set (registered u m). \<not> mentions f g" "narrows u' u"
    "trace u' = trace u" "queue u' = queue u"
  shows "extends f u u'"
  using assms by (auto simp: extends_def narrows_def)

lemma calls_clean: "\<forall>g \<in> set hs. \<not> mentions f g \<Longrightarrow> Call f v \<notin> set (calls hs u)"
  by (induction hs u rule: calls.induct) auto

lemma deferrals_clean:
  "\<forall>g \<in> set hs. \<not> mentions f g \<Longrightarrow> (g, v) \<in> set (deferrals hs u) \<Longrightarrow> \<not> mentions f g"
  by (induction hs u rule: deferrals.induct) auto

lemma emit_extends:
  assumes "\<forall>m. \<forall>g \<in> set (registered u m). \<not> mentions f g"
  shows "extends f u (emit n args u)"
proof -
  have "\<forall>m. \<forall>g \<in> set (registered (emit n args u) m). \<not> mentions f g"
    using assms narrows_emit[of n args u] by (auto simp: narrows_def)
  moreover have "\<forall>v. Call f v \<notin> set (Emit n args # calls (registered u n) (firstArg args))"
    using assms calls_clean[of "registered u n" f] by simp
  moreover have "\<forall>(g, v) \<in> set (deferrals (registered u n) (firstArg args)). \<not> mentions f g"
    using assms deferrals_clean[of "registered u n" f] by auto
  ultimately show ?thesis
    unfolding extends_def emit_trace emit_queue by blast
qed

lemma extends_clean: "extends f u u' \<Longrightarrow> \<forall>m. \<forall>g \<in> set (registered u' m). \<not> mentions f g"
  by (simp add: extends_def)

lemma subscribe_registered:
  "set (registered (snd (subscribe n g u)) m) \<subseteq> set (registered u m) \<union> {g, Deferred g}"
  "trace (snd (subscribe n g u)) = trace u" "queue (snd (subscribe n g u)) = queue u"
  by (auto simp: subscribe_def emitter_on_def newDisposable_def registered_def lookup_def Let_def
      nth_list_update split: option.splits if_splits)

lemma narrows_cd [simp]: "narrows (cd_add c d u) w = narrows u w" "narrows (cd_remove c d u) w = narrows u w"
  by (simp_all add: cd_add_def cd_remove_def split: option.splits dobj.splits bool.splits)

lemma narrows_dispose: "narrows (dispose r w) w"
  by (simp add: dispose_def narrows_run)

lemma fields_only_simps:
  assumes "fields_only f"
  shows "f (w\<lparr>disps := d\<rparr>) = f w" "f (w\<lparr>emitters := e\<rparr>) = f w" "f (w\<lparr>rules := r\<rparr>) = f w"
    "f (w\<lparr>promises := p\<rparr>) = f w" "f (w\<lparr>projects := ps\<rparr>) = f w"
    "f (w\<lparr>lightTheme := l\<rparr>) = f w" "f (w\<lparr>restoreOffset := ro\<rparr>) = f w"
    "f (w\<lparr>disposables := ds\<rparr>) = f w" "f (w\<lparr>emitter := em\<rparr>) = f w"
    "stores_only f"
  using assms by (simp_all add: fields_only_def stores_only_def)

lemma fields_only_trace_queue [simp]: "fields_only trace" "fields_only queue"
  by (simp_all add: fields_only_def)

lemma silent_ops:
  assumes f: "fields_only f"
  shows "f (dispose r w) = f w"
    and "f (reset w) = f w"
    and "f (snd (init w)) = f w"
    and "f (snd (fixOffset w)) = f w"
    and "f (snd (waitToSave ed w)) = f w"
proof -
  note fs = fields_only_simps[OF f]
  show d: "f (dispose r w) = f w" for r w
    by (rule dispose_frame) (rule fs)
  show "f (reset w) = f w"
    by (simp add: reset_def d fs emitter_dispose_def newComposite_def newEmitter_def Let_def
        split: option.splits)
  show "f (snd (init w)) = f w"
    using init_cases[of w] by (auto simp: small_frames[OF fs(10)] fs)
  have i: "f (snd (installRestore r off u)) = f u" for r off u
    by (simp add: installRestore_def newDisposable_def cd_add_def fs Let_def
        split: option.splits dobj.splits bool.splits)
  show "f (snd (fixOffset w)) = f w"
    by (simp add: fixOffset_def i d cd_remove_def fs Let_def
        split: option.splits sum.splits dobj.splits bool.splits prod.splits)
  show "f (snd (waitToSave ed w)) = f w"
    by (simp add: waitToSave_def onDidDestroy_def onDidChangePath_def emitter_on_def
        newDisposable_def newComposite_def reject_def cd_add_def fs Let_def
        split: option.splits sum.splits dobj.splits bool.splits prod.splits promise.splits)
qed

lemma narrows_installRestore: "narrows (snd (installRestore r off u)) u"
  by (simp add: installRestore_def newDisposable_def Let_def split: option.splits)

lemma narrows_fixOffset: "narrows (snd (fixOffset w)) w"
proof -
  have a: "narrows (snd (installRestore r off u)) w" if "narrows u w" for r off u
    using narrows_installRestore that by (rule narrows_trans)
  have b: "narrows (dispose old (w\<lparr>rules := rs\<rparr>)) w" for old rs
    using narrows_dispose[of old "w\<lparr>rules := rs\<rparr>"] by simp
  show ?thesis
    by (auto simp: fixOffset_def Let_def a b split: sum.splits option.splits prod.splits)
qed

lemma narrows_init: "narrows (snd (init w)) w"
  using init_cases[of w] by (auto simp: newDisposable_def)

lemma registered_fields [simp]:
  "registered (u\<lparr>disps := d\<rparr>) = registered u"
  "registered (u\<lparr>rules := r\<rparr>) = registered u"
  "registered (u\<lparr>promises := p\<rparr>) = registered u"
  "registered (u\<lparr>trace := t\<rparr>) = registered u"
  "registered (u\<lparr>queue := q\<rparr>) = registered u"
  "registered (u\<lparr>projects := ps\<rparr>) = registered u"
  "registered (u\<lparr>lightTheme := l\<rparr>) = registered u"
  "registered (u\<lparr>restoreOffset := ro\<rparr>) = registered u"
  "registered (u\<lparr>delayNext := b\<rparr>) = registered u"
  "registered (u\<lparr>disposables := ds\<rparr>) = registered u"
  "registered (u\<lparr>seen := sn\<rparr>) = registered u"
  by (simp_all add: registered_def fun_eq_iff split: option.splits)

lemma emitter_on_registered:
  assumes "emitter_on e n h u = (r, u')"
  shows "set (registered u' m) \<subseteq> set (registered u m) \<union> {h}"
  using assms
  by (cases "emitter u")
     (auto simp: emitter_on_def newDisposable_def registered_def lookup_def Let_def nth_list_update
      split: option.splits if_splits)

lemma registered_small [simp]:
  "registered (cd_add c d u) = registered u"
  "registered (cd_remove c d u) = registered u"
  "registered (reject p e u) = registered u"
  "registered (snd (newDisposable a u)) = registered u"
  "registered (snd (newComposite ms u)) = registered u"
  by (simp_all add: cd_add_def cd_remove_def reject_def newDisposable_def newComposite_def
      split: option.splits dobj.splits bool.splits promise.splits)

lemma waitToSave_registered:
  "set (registered (snd (waitToSave ed u)) m)
     \<subseteq> set (registered u m) \<union> {ScopeDispose (length (disps u) + 3),
                                   SaveResolve (length (disps u) + 3) (length (promises u))}"
proof -
  define w1 where "w1 = snd (newDisposable (Detach (length (disps u) + 3)) (u\<lparr>promises := promises u @ [Pending]\<rparr>))"
  have r1: "registered w1 = registered u" by (simp add: w1_def)
  obtain a w2 where on1: "onDidDestroy ed (ScopeDispose (length (disps u) + 3)) w1 = (a, w2)"
    by (cases "onDidDestroy ed (ScopeDispose (length (disps u) + 3)) w1")
  obtain b w3 where on2: "onDidChangePath ed (SaveResolve (length (disps u) + 3) (length (promises u))) w2 = (b, w3)"
    by (cases "onDidChangePath ed (SaveResolve (length (disps u) + 3) (length (promises u))) w2")
  have r2: "set (registered w2 m) \<subseteq> set (registered u m) \<union> {ScopeDispose (length (disps u) + 3)}"
    using emitter_on_registered[OF on1[unfolded onDidDestroy_def], of m] r1 by simp
  have r3: "set (registered w3 m) \<subseteq> set (registered w2 m) \<union> {SaveResolve (length (disps u) + 3) (length (promises u))}"
    using emitter_on_registered[OF on2[unfolded onDidChangePath_def], of m] by simp
  have "set (registered (snd (waitToSave ed u)) m) \<subseteq> set (registered w2 m) \<union> set (registered w3 m)"
    using on1 on2
    by (auto simp: waitToSave_def w1_def newDisposable_def newComposite_def Let_def
        split: sum.splits option.splits)
  with r2 r3 show ?thesis by blast
qed

lemma perform_extends:
  assumes c: "\<forall>m. \<forall>g \<in> set (registered u m). \<not> mentions f g" and h: "hubOp f x"
  shows "extends f u (perform x u)"
proof (cases x)
  case (Subscribe n g)
  with h have "\<not> mentions f g" by simp
  with c subscribe_registered(1)[of n g u] have "\<forall>m. \<forall>k \<in> set (registered (snd (subscribe n g u)) m). \<not> mentions f k"
    by fastforce
  then show ?thesis
    unfolding Subscribe by (simp add: extends_def subscribe_registered)
next
  case (EmitOp n args)
  with c show ?thesis by (simp add: emit_extends)
next
  case Delay
  with c show ?thesis by (simp add: extends_def delay_def)
next
  case Reset
  then show ?thesis by (simp add: extends_def reset_hub silent_ops)
next
  case Init
  with c show ?thesis
    by (auto intro!: extends_narrows simp: narrows_init silent_ops)
next
  case (SetProjects to)
  have e2: "extends f u (emit n2 a2 (emit n1 a1 (u\<lparr>projects := ps\<rparr>)))" for n1 a1 n2 a2 ps
  proof -
    have "extends f (u\<lparr>projects := ps\<rparr>) (emit n1 a1 (u\<lparr>projects := ps\<rparr>))"
      by (rule emit_extends) (simp add: c)
    moreover from this have "extends f (emit n1 a1 (u\<lparr>projects := ps\<rparr>)) (emit n2 a2 (emit n1 a1 (u\<lparr>projects := ps\<rparr>)))"
      by (intro emit_extends extends_clean)
    ultimately have "extends f (u\<lparr>projects := ps\<rparr>) (emit n2 a2 (emit n1 a1 (u\<lparr>projects := ps\<rparr>)))"
      by (rule extends_trans)
    then show ?thesis by (simp add: extends_def)
  qed
  have e0: "extends f u u" using c by (simp add: extends_def)
  show ?thesis
    unfolding SetProjects
    by (simp add: setProjects_def emitProjectsAvailable_def emitProjectsEmptied_def
        emitProjectsChanged_def e2 e0 Let_def split: option.splits)
next
  case CheckMotif
  have e1: "extends f u (emit n1 a1 (u\<lparr>lightTheme := l\<rparr>))" for n1 a1 l
  proof -
    have "extends f (u\<lparr>lightTheme := l\<rparr>) (emit n1 a1 (u\<lparr>lightTheme := l\<rparr>))"
      by (rule emit_extends) (simp add: c)
    then show ?thesis by (simp add: extends_def)
  qed
  have e0: "extends f u u" using c by (simp add: extends_def)
  show ?thesis
    unfolding CheckMotif
    by (simp add: checkMotif_def emitMotifChanged_def e1 e0 Let_def split: option.splits sum.splits)
next
  case FixOffset
  with c show ?thesis
    by (auto intro!: extends_narrows simp: narrows_fixOffset silent_ops)
next
  case (WaitToSave ed)
  have "\<forall>m. \<forall>g \<in> set (registered (snd (waitToSave ed u)) m). \<not> mentions f g"
    using c waitToSave_registered[of ed u] by fastforce
  then show ?thesis
    unfolding WaitToSave by (simp add: extends_def silent_ops)
next
  case (DisposeHandle r)
  with c show ?thesis
    by (auto intro!: extends_narrows simp: narrows_dispose silent_ops)
next
  case Turn
  with h show ?thesis by simp
next
  case (PathChanged ed path)
  with h show ?thesis by simp
next
  case (Destroyed ed)
  with h show ?thesis by simp
qed

lemma performAll_extends:
  "\<forall>m. \<forall>g \<in> set (registered u m). \<not> mentions f g \<Longrightarrow> list_all (hubOp f) ops \<Longrightarrow>
   extends f u (performAll ops u)"
proof (induction ops arbitrary: u)
  case Nil
  then show ?case by (simp add: extends_def)
next
  case (Cons x ops)
  from Cons.prems have 1: "extends f u (perform x u)" by (simp add: perform_extends)
  from Cons.IH[OF extends_clean[OF 1]] Cons.prems(2)
  have "extends f (perform x u) (performAll ops (perform x u))" by simp
  with 1 show ?case by (auto intro: extends_trans)
qed

text \<open>
  C4: after \<^verbatim>\<open>reset()\<close> the hub holds no handler, so an \<^verbatim>\<open>emit\<close> that follows it calls
  and schedules nothing. More generally, through every sequence of operations of the
  instance after the \<^verbatim>\<open>reset()\<close> in which the function \<open>f\<close> is not subscribed again, the
  trace and the tasks of the state before the \<^verbatim>\<open>reset()\<close> are only added to, no call of
  \<open>f\<close> is added to the trace, and no task that would call \<open>f\<close> is added to the tasks,
  whatever event names the emits use.
\<close>

theorem reset_forgets_handlers:
  assumes "list_all (hubOp f) ops"
  shows "registered (reset w) n = []
       \<and> trace (emit n args (reset w)) = trace w @ [Emit n args]
       \<and> queue (emit n args (reset w)) = queue w
       \<and> take (length (trace w)) (trace (performAll ops (reset w))) = trace w
       \<and> Call f v \<notin> set (drop (length (trace w)) (trace (performAll ops (reset w))))
       \<and> take (length (queue w)) (queue (performAll ops (reset w))) = queue w
       \<and> list_all (\<lambda>(g, u). \<not> mentions f g)
            (drop (length (queue w)) (queue (performAll ops (reset w))))"
proof -
  have r: "registered (reset w) m = []" for m by (rule reset_hub)
  have tq: "trace (reset w) = trace w" "queue (reset w) = queue w"
    by (simp_all add: silent_ops)
  have "extends f (reset w) (performAll ops (reset w))"
    using assms by (intro performAll_extends) (simp add: r)
  then obtain t q where
    t: "trace (performAll ops (reset w)) = trace w @ t" "\<forall>v. Call f v \<notin> set t" and
    q: "queue (performAll ops (reset w)) = queue w @ q" "\<forall>(g, v) \<in> set q. \<not> mentions f g"
    unfolding extends_def tq by blast
  have "list_all (\<lambda>(g, u). \<not> mentions f g) q"
    using q(2) by (auto simp: list_all_iff)
  then show ?thesis
    using r t q(1) by (simp add: emit_trace emit_queue tq)
qed

lemma demoEmitted_eval:
  "demoEmitted = demo\<lparr>
      emitters := [\<lparr>e_disposed = False,
                    handlersByEventName = (\<lambda>_. [])(''open-file'' := [Deferred (Fn 1), Fn 2])\<rparr>],
      disps := [Composite False [1, 2], Disposable False (Some (HostOff 0)),
                Disposable False (Some (HostOff 1)),
                Disposable False (Some (Off 0 ''open-file'' (Deferred (Fn 1)))),
                Disposable False (Some (Off 0 ''open-file'' (Fn 2)))],
      queue := [(Fn 1, VObj 7)],
      trace := [Emit ''open-file'' [VObj 7], Call 2 (VObj 7)],
      seen := [(Some [], Some False)]\<rparr>"
  by (simp add: demoEmitted_def demo_eval delay_def subscribe_def emitter_on_def newDisposable_def
      emit_def emitter_emit_def firstArg_def lookup_def Let_def)

lemma reset_demoEmitted:
  "reset demoEmitted = demo\<lparr>
      emitter := Some 1, disposables := Some 5,
      emitters := [\<lparr>e_disposed = True, handlersByEventName = (\<lambda>_. [])\<rparr>,
                   \<lparr>e_disposed = False, handlersByEventName = (\<lambda>_. [])\<rparr>],
      disps := [Composite True [], Disposable True None, Disposable True None,
                Disposable False (Some (Off 0 ''open-file'' (Deferred (Fn 1)))),
                Disposable False (Some (Off 0 ''open-file'' (Fn 2))),
                Composite False []],
      queue := [(Fn 1, VObj 7)],
      trace := [Emit ''open-file'' [VObj 7], Call 2 (VObj 7)],
      seen := [(Some [], Some False)]\<rparr>"
  by (simp add: demoEmitted_eval demo_eval reset_def dispose_def run.simps emitter_dispose_def
      newComposite_def newEmitter_def lookup_def Let_def)

theorem reset_forgets_handlers_witness:
  "list_all (hubOp 2)
     [EmitOp ''open-file'' [VObj 7], Subscribe ''open-file'' (Fn 3), EmitOp ''open-file'' [VObj 8]]
   \<and> registered demoEmitted ''open-file'' = [Deferred (Fn 1), Fn 2]
   \<and> registered (reset demoEmitted) ''open-file'' = []
   \<and> trace (emit ''open-file'' [VObj 7] (reset demoEmitted))
       = trace demoEmitted @ [Emit ''open-file'' [VObj 7]]
   \<and> trace (performAll
        [EmitOp ''open-file'' [VObj 7], Subscribe ''open-file'' (Fn 3), EmitOp ''open-file'' [VObj 8]]
        (reset demoEmitted))
       = trace demoEmitted @
         [Emit ''open-file'' [VObj 7], Emit ''open-file'' [VObj 8], Call 3 (VObj 8)]
   \<and> Call 2 (VObj 8) \<notin> set (drop (length (trace demoEmitted)) (trace (performAll
        [EmitOp ''open-file'' [VObj 7], Subscribe ''open-file'' (Fn 3), EmitOp ''open-file'' [VObj 8]]
        (reset demoEmitted))))"
proof -
  have h: "list_all (hubOp 2)
     [EmitOp ''open-file'' [VObj 7], Subscribe ''open-file'' (Fn 3), EmitOp ''open-file'' [VObj 8]]"
    by simp
  have r: "registered demoEmitted ''open-file'' = [Deferred (Fn 1), Fn 2]"
    by (simp add: demoEmitted_eval demo_eval registered_def lookup_def)
  have t: "trace (performAll
        [EmitOp ''open-file'' [VObj 7], Subscribe ''open-file'' (Fn 3), EmitOp ''open-file'' [VObj 8]]
        (reset demoEmitted))
       = trace demoEmitted @
         [Emit ''open-file'' [VObj 7], Emit ''open-file'' [VObj 8], Call 3 (VObj 8)]"
    unfolding reset_demoEmitted
    by (simp add: demoEmitted_eval demo_eval subscribe_def emitter_on_def
        newDisposable_def emit_def emitter_emit_def firstArg_def lookup_def Let_def)
  from reset_forgets_handlers[OF h, of demoEmitted "''open-file''" "[VObj 7]" "VObj 8"] h r t
  show ?thesis by simp
qed

subsection \<open>The offset patch\<close>

lemma set_restorers: "set (restorers w) = {i. active w i}"
  by (auto simp: restorers_def active_def lookup_def)

lemma restorers_single: "(\<And>i. active w i \<longleftrightarrow> i = n) \<Longrightarrow> restorers w = [n]"
proof -
  assume a: "\<And>i. active w i \<longleftrightarrow> i = n"
  have d: "distinct (restorers w)" by (simp add: restorers_def)
  have s: "set (restorers w) = {n}" using a by (auto simp: set_restorers)
  from d s have "length (restorers w) = 1"
    by (metis One_nat_def card.empty card_insert_disjoint distinct_card empty_iff finite.emptyI)
  with s show ?thesis by (cases "restorers w") auto
qed

lemma restorers_none: "(\<And>i. \<not> active w i) \<Longrightarrow> restorers w = []"
  using set_restorers[of w] by auto

lemma onePatch_iff: "onePatch w \<longleftrightarrow> (\<forall>i. active w i \<longrightarrow> restoreOffset w = Some i)"
  by (auto simp: onePatch_def list_all_iff set_restorers)

lemma fewer_refl [simp]: "fewer w w"
  by (simp add: fewer_def)

lemma fewer_trans: "fewer u v \<Longrightarrow> fewer v w \<Longrightarrow> fewer u w"
  by (simp add: fewer_def)

lemma fewer_onePatch: "fewer u w \<Longrightarrow> onePatch w \<Longrightarrow> onePatch u"
  by (auto simp: fewer_def onePatch_iff)

lemma fewer_same: "restoreOffset u = restoreOffset w \<Longrightarrow> disps u = disps w \<Longrightarrow> fewer u w"
  by (simp add: fewer_def active_def)

lemma fewer_mark:
  "restoreOffset u = restoreOffset w \<Longrightarrow> disps u = (disps w)[r := v] \<Longrightarrow> \<not> isRestorer v \<Longrightarrow>
   fewer u w"
  by (auto simp: fewer_def active_def split: option.splits if_splits)

lemma fewer_new:
  "restoreOffset u = restoreOffset w \<Longrightarrow> disps u = disps w @ vs \<Longrightarrow> list_all (\<lambda>v. \<not> isRestorer v) vs \<Longrightarrow>
   fewer u w"
  by (auto simp: fewer_def active_def lookup_def nth_append list_all_length split: option.splits if_splits)

lemma fewer_cd: "fewer (cd_add c d u) u" "fewer (cd_remove c d u) u"
  by (auto simp: cd_add_def cd_remove_def split: option.splits dobj.splits bool.splits
      intro!: fewer_mark[where r = c])

lemma fewer_emitter_off: "fewer (emitter_off e n h u) u"
  by (auto simp: emitter_off_def split: option.splits intro!: fewer_same)

lemma fewer_act: "fewer (act a u) u"
  by (cases a) (auto simp: fewer_emitter_off fewer_cd split: option.splits intro!: fewer_same)

lemma fewer_run: "fewer (run k w) w"
proof (rule run_invariant[where P = "\<lambda>u. fewer u w"])
  show "fewer w w" by simp
  show "fewer (u\<lparr>disps := (disps u)[r := v]\<rparr>) w" if "fewer u w" "\<not> live v" for u r v
  proof -
    have "\<not> isRestorer v" using that(2) by (cases v rule: isRestorer.cases) simp_all
    then have "fewer (u\<lparr>disps := (disps u)[r := v]\<rparr>) u"
      by (intro fewer_mark[where r = r and v = v]) simp_all
    from this that(1) show ?thesis by (rule fewer_trans)
  qed
  show "fewer (act a u) w" if "fewer u w" for u a
    using fewer_act that by (rule fewer_trans)
qed

lemma fewer_dispose: "fewer (dispose r w) w"
  by (simp add: dispose_def fewer_run)

lemma fewer_eq:
  "restoreOffset u' = restoreOffset u \<Longrightarrow> disps u' = disps u \<Longrightarrow> fewer u w \<Longrightarrow> fewer u' w"
  by (simp add: fewer_def active_def)

lemma fewer_invoke: "fewer (invoke h v w) w"
  by (cases h)
     (auto simp: fewer_dispose resolve_def split: option.splits promise.splits
      intro: fewer_eq[OF _ _ fewer_dispose] fewer_same)

lemma fewer_dispatchAll: "fewer (dispatchAll hs v w) w"
proof (induction hs arbitrary: w)
  case Nil
  then show ?case by simp
next
  case (Cons h hs)
  from Cons.IH[of "invoke h v w"] fewer_invoke[of h v w] show ?case
    by (auto intro: fewer_trans)
qed

lemma fewer_emitter_emit: "fewer (emitter_emit e n args w) w"
  by (simp add: emitter_emit_def fewer_dispatchAll split: option.splits)

lemma fewer_emit: "fewer (emit n args w) w"
proof -
  have "fewer (w\<lparr>trace := trace w @ [Emit n args],
      seen := seen w @ [(projects w, lightTheme w)]\<rparr>) w"
    by (rule fewer_same) simp_all
  with fewer_emitter_emit[of _ n args "w\<lparr>trace := trace w @ [Emit n args],
      seen := seen w @ [(projects w, lightTheme w)]\<rparr>"]
  show ?thesis
    by (auto simp: emit_def Let_def split: option.splits intro: fewer_trans)
qed

lemma fewer_emitter_on: "emitter_on e n h u = (r, u') \<Longrightarrow> fewer u' u"
  by (auto simp: emitter_on_def newDisposable_def Let_def split: option.splits if_splits
      intro!: fewer_new[where vs = "[Disposable False (Some (Off e n h))]"])

lemma fewer_subscribe: "fewer (snd (subscribe n h w)) w"
proof -
  define w1 where "w1 = (if delayNext w then w\<lparr>delayNext := False\<rparr> else w)"
  have 1: "fewer w1 w" unfolding w1_def by (auto intro!: fewer_same)
  obtain r u' where s: "subscribe n h w = (r, u')" by (cases "subscribe n h w")
  have "fewer u' w1"
  proof (cases "emitter w1")
    case None
    with s have "u' = w1\<lparr>disps := disps w1 @ [Disposable False (Some Nop)]\<rparr>"
      by (auto simp: subscribe_def w1_def newDisposable_def Let_def)
    then show ?thesis
      by (auto intro!: fewer_new[where vs = "[Disposable False (Some Nop)]"])
  next
    case (Some e)
    with s have "emitter_on e n (if delayNext w then Deferred h else h) w1 = (r, u')"
      by (auto simp: subscribe_def w1_def Let_def)
    then show ?thesis by (rule fewer_emitter_on)
  qed
  with 1 s show ?thesis by (auto intro: fewer_trans)
qed

lemma fewer_reset: "fewer (reset w) w"
proof -
  define w1 where "w1 = (case disposables w of None \<Rightarrow> w | Some d \<Rightarrow> dispose d w)"
  have 1: "fewer w1 w"
    by (simp add: w1_def fewer_dispose split: option.splits)
  have "restoreOffset (reset w) = restoreOffset w1" "disps (reset w) = disps w1 @ [Composite False []]"
    unfolding w1_def
    by (simp_all add: reset_def emitter_dispose_def newComposite_def newEmitter_def Let_def
        split: option.splits)
  then have "fewer (reset w) w1"
    by (rule fewer_new) simp
  from this 1 show ?thesis by (rule fewer_trans)
qed

lemma fewer_init: "fewer (snd (init w)) w"
proof -
  define w3 where "w3 = w\<lparr>projects := Some [], lightTheme := Some False,
      disps := disps w @ [Disposable False (Some (HostOff 0)), Disposable False (Some (HostOff 1))]\<rparr>"
  have 1: "fewer w3 w"
    unfolding w3_def
    by (rule fewer_new[where vs = "[Disposable False (Some (HostOff 0)), Disposable False (Some (HostOff 1))]"])
       simp_all
  have "fewer (w\<lparr>projects := Some [], lightTheme := Some False\<rparr>) w"
    by (rule fewer_same) simp_all
  moreover have "snd (init w) = w\<lparr>projects := Some [], lightTheme := Some False\<rparr>
      \<or> (\<exists>d a b. snd (init w) = cd_add d b (cd_add d a w3))"
    using init_cases[of w] by (auto simp: newDisposable_def w3_def)
  moreover have "fewer (cd_add d b (cd_add d a w3)) w" for d a b
    using fewer_cd(1)[of d b "cd_add d a w3"] fewer_cd(1)[of d a w3] 1
    by (blast intro: fewer_trans)
  ultimately show ?thesis using 1 by auto
qed

lemma fewer_setProjects: "fewer (snd (setProjects to w)) w"
proof -
  have "fewer (w\<lparr>projects := ps\<rparr>) w" for ps by (rule fewer_same) simp_all
  then have "fewer (emit n2 a2 (emit n1 a1 (w\<lparr>projects := ps\<rparr>))) w" for n1 a1 n2 a2 ps
    by (blast intro: fewer_trans fewer_emit)
  then show ?thesis
    by (simp add: setProjects_def emitProjectsAvailable_def emitProjectsEmptied_def
        emitProjectsChanged_def Let_def split: option.splits)
qed

lemma fewer_checkMotif: "fewer (snd (checkMotif w)) w"
proof -
  have "fewer (w\<lparr>lightTheme := l\<rparr>) w" for l by (rule fewer_same) simp_all
  then have "fewer (emit n1 a1 (w\<lparr>lightTheme := l\<rparr>)) w" for n1 a1 l
    by (blast intro: fewer_trans fewer_emit)
  then show ?thesis
    by (simp add: checkMotif_def emitMotifChanged_def Let_def split: option.splits sum.splits)
qed

lemma fewer_reject: "fewer (reject p e w) w"
  by (auto simp: reject_def split: option.splits promise.splits intro!: fewer_same)

lemma fewer_waitToSave: "fewer (snd (waitToSave ed w)) w"
proof -
  define cd where "cd = length (disps w) + 4"
  define w1 where "w1 = snd (newDisposable (Detach (length (disps w) + 3)) (w\<lparr>promises := promises w @ [Pending]\<rparr>))"
  have 1: "fewer w1 w"
    unfolding w1_def newDisposable_def
    by (auto intro!: fewer_new[where vs = "[Disposable False (Some (Detach (length (disps w) + 3)))]"])
  obtain a w2 where on1: "onDidDestroy ed (ScopeDispose (length (disps w) + 3)) w1 = (a, w2)"
    by (cases "onDidDestroy ed (ScopeDispose (length (disps w) + 3)) w1")
  obtain b w3 where on2: "onDidChangePath ed (SaveResolve (length (disps w) + 3) (length (promises w))) w2 = (b, w3)"
    by (cases "onDidChangePath ed (SaveResolve (length (disps w) + 3) (length (promises w))) w2")
  have 2: "fewer w2 w" using fewer_emitter_on[OF on1[unfolded onDidDestroy_def]] 1 by (rule fewer_trans)
  have 3: "fewer w3 w" using fewer_emitter_on[OF on2[unfolded onDidChangePath_def]] 2 by (rule fewer_trans)
  have 4: "fewer (w3\<lparr>disps := disps w3 @ [Composite False ms]\<rparr>) w3" for ms
    by (rule fewer_new[where vs = "[Composite False ms]"]) simp_all
  have "fewer (snd (waitToSave ed w)) w2 \<or> fewer (snd (waitToSave ed w)) w3"
    using on1 on2
    by (auto simp: waitToSave_def w1_def newDisposable_def newComposite_def Let_def fewer_reject
        split: sum.splits option.splits
        intro: fewer_trans[OF fewer_cd(1) 4] fewer_trans[OF fewer_reject 4])
  with 2 3 show ?thesis by (blast intro: fewer_trans)
qed

lemma fewer_turn: "fewer (turn w) w"
proof (cases "queue w")
  case Nil
  then show ?thesis by (simp add: turn_def)
next
  case (Cons t q)
  have "fewer (w\<lparr>queue := q\<rparr>) w" by (rule fewer_same) simp_all
  with fewer_invoke[of "fst t" "snd t" "w\<lparr>queue := q\<rparr>"] Cons show ?thesis
    by (cases t) (auto simp: turn_def intro: fewer_trans)
qed

lemma fewer_perform: "x \<noteq> FixOffset \<Longrightarrow> fewer (perform x w) w"
  by (cases x)
     (auto simp: fewer_subscribe fewer_emit fewer_reset fewer_init fewer_setProjects
      fewer_checkMotif fewer_waitToSave fewer_dispose fewer_turn fewer_emitter_emit
      pathChanged_def destroyed_def delay_def intro!: fewer_same)

lemma offsetRule_found:
  "offsetRule refs rs = Inr (Some (r, rl)) \<Longrightarrow>
   lookup rs r = Some rl \<and> selectorText rl = Some offsetSelector \<and> styleTop rl \<noteq> []"
  by (induction refs) (auto split: option.splits if_splits)

lemma offsetSheet_found:
  "offsetSheet ss rs = Inr (Some (r, rl)) \<Longrightarrow>
   lookup rs r = Some rl \<and> selectorText rl = Some offsetSelector \<and> styleTop rl \<noteq> []"
  by (induction ss) (auto split: sum.splits option.splits dest: offsetRule_found)

lemma act_lengths:
  "length (disps (act a w)) = length (disps w)" "length (rules (act a w)) = length (rules w)"
  by (cases a; simp add: emitter_off_def cd_remove_def split: option.splits dobj.splits bool.splits)+

lemma run_lengths:
  "length (disps (run k w)) = length (disps w) \<and> length (rules (run k w)) = length (rules w)"
  by (rule run_invariant[where P = "\<lambda>u. length (disps u) = length (disps w) \<and> length (rules u) = length (rules w)"])
     (simp_all add: act_lengths)

lemma dispose_lengths:
  "length (disps (dispose r w)) = length (disps w)" "length (rules (dispose r w)) = length (rules w)"
  using run_lengths[of "[Dispose r]" w] by (simp_all add: dispose_def)

lemma active_cd [simp]: "active (cd_add c d u) = active u" "active (cd_remove c d u) = active u"
  by (auto simp: fun_eq_iff active_def cd_add_def cd_remove_def
      split: option.splits dobj.splits bool.splits if_splits)

lemma dispose_kills: "\<not> active (dispose r w) r"
proof (cases "active w r")
  case False
  with fewer_dispose[of r w] show ?thesis by (auto simp: fewer_def)
next
  case True
  then obtain rr v where l: "lookup (disps w) r = Some (Disposable False (Some (RestoreTop rr v)))"
    by (auto simp: active_def split: option.splits elim: isRestorer.elims)
  then have "r < length (disps w)" by (simp add: lookup_def split: if_splits)
  then show ?thesis
    unfolding dispose_plain[OF l]
    by (simp add: active_def Let_def split: option.splits)
qed

lemma restorer_restores:
  assumes "lookup (disps w) n = Some (Disposable False (Some (RestoreTop r v)))" "r < length (rules w)"
  shows "rules (dispose n w) = (rules w)[r := (rules w ! r)\<lparr>styleTop := v\<rparr>]"
  unfolding dispose_plain[OF assms(1)] using assms(2) by (simp add: Let_def lookup_def)

lemma installRestore_result:
  shows "disposables u = Some d \<Longrightarrow> fst (installRestore r v u) = Inr ()"
    and "restoreOffset (snd (installRestore r v u)) = Some (length (disps u))"
    and "lookup (disps (snd (installRestore r v u))) (length (disps u))
           = Some (Disposable False (Some (RestoreTop r v)))"
    and "active (snd (installRestore r v u)) i \<longleftrightarrow> active u i \<or> i = length (disps u)"
    and "rules (snd (installRestore r v u)) = rules u"
    and "styleSheets (snd (installRestore r v u)) = styleSheets u"
    and "disposables (snd (installRestore r v u)) = disposables u"
proof -
  define u1 where "u1 = u\<lparr>disps := disps u @ [Disposable False (Some (RestoreTop r v))],
                           restoreOffset := Some (length (disps u))\<rparr>"
  have e: "snd (installRestore r v u) = (case disposables u of None \<Rightarrow> u1 | Some d \<Rightarrow> cd_add d (length (disps u)) u1)"
    by (simp add: installRestore_def newDisposable_def u1_def Let_def split: option.splits)
  have c: "lookup (disps (cd_add d (length (disps u)) u1)) (length (disps u))
             = Some (Disposable False (Some (RestoreTop r v)))" for d
    by (auto simp: cd_add_def u1_def split: option.splits dobj.splits bool.splits)
  have a: "active u1 i \<longleftrightarrow> active u i \<or> i = length (disps u)"
    by (auto simp: active_def u1_def split: option.splits)
  show "disposables u = Some d \<Longrightarrow> fst (installRestore r v u) = Inr ()"
    by (simp add: installRestore_def newDisposable_def Let_def)
  show "restoreOffset (snd (installRestore r v u)) = Some (length (disps u))"
    unfolding e by (simp add: cd_add_def u1_def split: option.splits dobj.splits bool.splits)
  show "lookup (disps (snd (installRestore r v u))) (length (disps u))
           = Some (Disposable False (Some (RestoreTop r v)))"
    unfolding e using c by (simp add: u1_def split: option.splits)
  show "active (snd (installRestore r v u)) i \<longleftrightarrow> active u i \<or> i = length (disps u)"
    unfolding e using a by (simp split: option.splits)
  show "rules (snd (installRestore r v u)) = rules u"
    unfolding e by (simp add: cd_add_def u1_def split: option.splits dobj.splits bool.splits)
  show "styleSheets (snd (installRestore r v u)) = styleSheets u"
    unfolding e by (simp add: cd_add_def u1_def split: option.splits dobj.splits bool.splits)
  show "disposables (snd (installRestore r v u)) = disposables u"
    unfolding e by (simp add: cd_add_def u1_def split: option.splits dobj.splits bool.splits)
qed

lemma active_rules [simp]: "active (w\<lparr>rules := rs\<rparr>) = active w"
  by (simp add: active_def fun_eq_iff)

lemma fixOffset_patch:
  assumes f: "offsetSheet (styleSheets w) (rules w) = Inr (Some (r, rl))" and o: "onePatch w"
  shows "(disposables w = Some d \<longrightarrow>
            fst (fixOffset w) = Inr ()
          \<and> restoreOffset (snd (fixOffset w)) = Some (length (disps w))
          \<and> lookup (disps (snd (fixOffset w))) (length (disps w))
               = Some (Disposable False (Some (RestoreTop r (styleTop rl))))
          \<and> (\<forall>i. active (snd (fixOffset w)) i \<longleftrightarrow> i = length (disps w)))
       \<and> length (rules (snd (fixOffset w))) = length (rules w)
       \<and> styleSheets (snd (fixOffset w)) = styleSheets w
       \<and> disposables (snd (fixOffset w)) = disposables w
       \<and> onePatch (snd (fixOffset w))"
proof -
  define w1 where "w1 = w\<lparr>rules := (rules w)[r := rl\<lparr>styleTop := []\<rparr>]\<rparr>"
  have a1: "active w1 = active w" by (simp add: w1_def)
  show ?thesis
  proof (cases "restoreOffset w")
    case None
    then have n: "\<not> active w1 i" for i using o a1 by (simp add: onePatch_iff)
    have e: "fixOffset w = installRestore r (styleTop rl) w1"
      using f None by (simp add: fixOffset_def w1_def Let_def)
    have d1: "disposables w1 = disposables w" "disps w1 = disps w" "styleSheets w1 = styleSheets w"
      "length (rules w1) = length (rules w)"
      by (simp_all add: w1_def)
    show ?thesis
      unfolding e using n d1 installRestore_result[where u = w1 and r = r and v = "styleTop rl"]
      by (auto simp: onePatch_iff)
  next
    case (Some old)
    define w2 where "w2 = dispose old w1"
    have n: "\<not> active w2 i" for i
    proof
      assume a: "active w2 i"
      with fewer_dispose[of old w1] have "active w i" by (simp add: fewer_def w2_def a1)
      with o Some have "i = old" by (simp add: onePatch_iff)
      with a dispose_kills[of old w1] show False by (simp add: w2_def)
    qed
    have d2: "disposables w2 = disposables w" "length (disps w2) = length (disps w)"
      "styleSheets w2 = styleSheets w" "length (rules w2) = length (rules w)"
      "restoreOffset w2 = Some old"
      unfolding w2_def using Some
      by (simp_all add: dispose_frame dispose_lengths w1_def)
    show ?thesis
    proof (cases "disposables w")
      case None
      then have "fixOffset w = (Inl TypeError, w2)"
        using f Some d2(1) by (simp add: fixOffset_def w1_def w2_def Let_def)
      then show ?thesis using None n d2 by (simp add: onePatch_iff)
    next
      case (Some d')
      define u where "u = cd_remove d' old w2"
      have e: "fixOffset w = installRestore r (styleTop rl) u"
        using f \<open>restoreOffset w = Some old\<close> Some d2(1)
        by (simp add: fixOffset_def w1_def w2_def u_def Let_def)
      have du: "disposables u = Some d'" "length (disps u) = length (disps w)"
        "styleSheets u = styleSheets w" "length (rules u) = length (rules w)" "\<not> active u i" for i
      proof -
        show "\<not> active u i" using n by (simp add: u_def)
        show "disposables u = Some d'" "length (disps u) = length (disps w)"
          "styleSheets u = styleSheets w" "length (rules u) = length (rules w)"
          using d2 Some
          by (simp_all add: u_def cd_remove_def split: option.splits dobj.splits bool.splits)
      qed
      show ?thesis
        unfolding e using du Some installRestore_result[where u = u and r = r and v = "styleTop rl"]
        by (auto simp: onePatch_iff)
    qed
  qed
qed

lemma fixOffset_onePatch: "onePatch w \<Longrightarrow> onePatch (snd (fixOffset w))"
proof (cases "offsetSheet (styleSheets w) (rules w)")
  case (Inl e)
  then show "onePatch w \<Longrightarrow> ?thesis" by (simp add: fixOffset_def)
next
  case (Inr found)
  show "onePatch w \<Longrightarrow> ?thesis"
  proof (cases found)
    case None
    with Inr show "onePatch w \<Longrightarrow> ?thesis" by (simp add: fixOffset_def)
  next
    case (Some p)
    obtain r rl where "p = (r, rl)" by (cases p)
    with Inr Some fixOffset_patch[of w r rl] show "onePatch w \<Longrightarrow> ?thesis" by simp
  qed
qed

lemma perform_onePatch: "onePatch w \<Longrightarrow> onePatch (perform x w)"
proof (cases "x = FixOffset")
  case True
  then show "onePatch w \<Longrightarrow> ?thesis" by (simp add: fixOffset_onePatch)
next
  case False
  then show "onePatch w \<Longrightarrow> ?thesis" using fewer_perform fewer_onePatch by blast
qed

lemma performAll_onePatch: "onePatch w \<Longrightarrow> onePatch (performAll ops w)"
  by (induction ops arbitrary: w) (simp_all add: perform_onePatch)

lemma loadModule_onePatch: "onePatch (loadModule sp il sheets rs)"
  by (simp add: loadModule_def newObject_def reset_def newComposite_def newEmitter_def onePatch_iff active_def
      lookup_def Let_def)

lemma fixOffset_replaces:
  assumes f: "offsetSheet (styleSheets w) (rules w) = Inr (Some (r, rl))"
    and ro: "restoreOffset w = Some old"
    and lo: "lookup (disps w) old = Some (Disposable False (Some (RestoreTop r0 v0)))"
    and d: "disposables w = Some d"
  shows "lookup (disps (snd (fixOffset w))) old = Some (Disposable True None)
       \<and> (\<forall>ms. lookup (disps (snd (fixOffset w))) d = Some (Composite False ms) \<longrightarrow>
              old \<notin> set ms \<and> length (disps w) \<in> set ms)"
proof -
  define w1 where "w1 = w\<lparr>rules := (rules w)[r := rl\<lparr>styleTop := []\<rparr>]\<rparr>"
  have l1: "lookup (disps w1) old = Some (Disposable False (Some (RestoreTop r0 v0)))"
    using lo by (simp add: w1_def)
  have old: "old < length (disps w)" using lo by (simp add: lookup_def split: if_splits)
  define w2 where "w2 = dispose old w1"
  have d2: "disps w2 = (disps w)[old := Disposable True None]" "disposables w2 = Some d"
    unfolding w2_def dispose_plain[OF l1] using d
    by (simp_all add: w1_def Let_def split: option.splits)
  have e: "snd (fixOffset w) = snd (installRestore r (styleTop rl) (cd_remove d old w2))"
    using f ro d2(2) by (simp add: fixOffset_def w1_def w2_def Let_def)
  show ?thesis
    unfolding e using d2 old
    by (auto simp: installRestore_def newDisposable_def cd_remove_def cd_add_def Let_def lookup_def
        nth_append nth_list_update split: option.splits dobj.splits bool.splits if_splits)
qed

text \<open>
  C8: from the loading of the module on, through every sequence of operations, no
  restoring capability is active but the one in the field \<^verbatim>\<open>restoreOffset\<close>, and every
  operation keeps it so. When \<^verbatim>\<open>fixOffset\<close> finds a rule to patch, in a state with the
  set \<^verbatim>\<open>disposables\<close>, then after this call exactly one restoring capability is active,
  and after a second call in succession again exactly one: if the second call finds no
  rule it changes nothing, and the active capability is the first call's; if it finds
  one, the first call's capability is disposed and is no member of the set, and the
  active one is new and a member. In both cases the active capability holds the
  non-empty value the rule had when it was captured, and disposing it sets the rule's
  \<^verbatim>\<open>style.top\<close> to that value.
\<close>

theorem fixOffset_keeps_one_patch:
  assumes "onePatch w" "disposables w = Some d"
    and "offsetSheet (styleSheets w) (rules w) = Inr (Some (r, rl))"
    and "w1 = snd (fixOffset w)" "w2 = snd (fixOffset w1)"
    and "n1 = length (disps w)" "n2 = length (disps w1)"
  shows "onePatch (performAll ops (loadModule sp il sheets rs))
       \<and> onePatch (perform x w)
       \<and> restorers w1 = [n1] \<and> restoreOffset w1 = Some n1
       \<and> (case offsetSheet (styleSheets w1) (rules w1) of
             Inr (Some (r2, rl2)) \<Rightarrow>
                 restorers w2 = [n2] \<and> restoreOffset w2 = Some n2
               \<and> lookup (disps w2) n2 = Some (Disposable False (Some (RestoreTop r2 (styleTop rl2))))
               \<and> styleTop rl2 \<noteq> []
               \<and> map_option styleTop (lookup (rules (dispose n2 w2)) r2) = Some (styleTop rl2)
               \<and> lookup (disps w2) n1 = Some (Disposable True None)
               \<and> (\<forall>ms. lookup (disps w2) d = Some (Composite False ms) \<longrightarrow>
                      n1 \<notin> set ms \<and> n2 \<in> set ms)
           | _ \<Rightarrow>
                 w2 = w1 \<and> restorers w2 = [n1] \<and> restoreOffset w2 = Some n1
               \<and> lookup (disps w2) n1 = Some (Disposable False (Some (RestoreTop r (styleTop rl))))
               \<and> styleTop rl \<noteq> []
               \<and> map_option styleTop (lookup (rules (dispose n1 w2)) r) = Some (styleTop rl))"
proof -
  note p1 = fixOffset_patch[OF assms(3,1), of d, folded assms(4,6)]
  from p1 assms(2) have 1: "restorers w1 = [n1]" "restoreOffset w1 = Some n1"
    "lookup (disps w1) n1 = Some (Disposable False (Some (RestoreTop r (styleTop rl))))"
    "disposables w1 = Some d" "onePatch w1" "length (rules w1) = length (rules w)"
    by (auto intro: restorers_single)
  from offsetSheet_found[OF assms(3)] have rl: "styleTop rl \<noteq> []" "r < length (rules w)"
    by (auto simp: lookup_def split: if_splits)
  have restore: "map_option styleTop (lookup (rules (dispose n u)) q) = Some v"
    if "lookup (disps u) n = Some (Disposable False (Some (RestoreTop q v)))" "q < length (rules u)"
    for n u q v
    using restorer_restores[OF that] that(2) by (simp add: lookup_def)
  have 2: "(case offsetSheet (styleSheets w1) (rules w1) of
             Inr (Some (r2, rl2)) \<Rightarrow>
                 restorers w2 = [n2] \<and> restoreOffset w2 = Some n2
               \<and> lookup (disps w2) n2 = Some (Disposable False (Some (RestoreTop r2 (styleTop rl2))))
               \<and> styleTop rl2 \<noteq> []
               \<and> map_option styleTop (lookup (rules (dispose n2 w2)) r2) = Some (styleTop rl2)
               \<and> lookup (disps w2) n1 = Some (Disposable True None)
               \<and> (\<forall>ms. lookup (disps w2) d = Some (Composite False ms) \<longrightarrow>
                      n1 \<notin> set ms \<and> n2 \<in> set ms)
           | _ \<Rightarrow>
                 w2 = w1 \<and> restorers w2 = [n1] \<and> restoreOffset w2 = Some n1
               \<and> lookup (disps w2) n1 = Some (Disposable False (Some (RestoreTop r (styleTop rl))))
               \<and> styleTop rl \<noteq> []
               \<and> map_option styleTop (lookup (rules (dispose n1 w2)) r) = Some (styleTop rl))"
  proof (cases "offsetSheet (styleSheets w1) (rules w1)")
    case (Inl e)
    then have "w2 = w1" unfolding assms(5) by (simp add: fixOffset_def)
    with Inl 1 rl restore[OF 1(3)] show ?thesis by simp
  next
    case (Inr found)
    show ?thesis
    proof (cases found)
      case None
      with Inr have "w2 = w1" unfolding assms(5) by (simp add: fixOffset_def)
      with Inr None 1 rl restore[OF 1(3)] show ?thesis by simp
    next
      case (Some p)
      obtain r2 rl2 where p: "p = (r2, rl2)" by (cases p)
      with Inr Some have f2: "offsetSheet (styleSheets w1) (rules w1) = Inr (Some (r2, rl2))" by simp
      note p2 = fixOffset_patch[OF f2 1(5), of d, folded assms(5,7)]
      from offsetSheet_found[OF f2] have rl2: "styleTop rl2 \<noteq> []" "r2 < length (rules w1)"
        by (auto simp: lookup_def split: if_splits)
      from p2 1(4) have 3: "restorers w2 = [n2]" "restoreOffset w2 = Some n2"
        "lookup (disps w2) n2 = Some (Disposable False (Some (RestoreTop r2 (styleTop rl2))))"
        "length (rules w2) = length (rules w1)"
        by (auto intro: restorers_single)
      from fixOffset_replaces[OF f2 1(2) 1(3) 1(4), folded assms(5,7)]
      have 4: "lookup (disps w2) n1 = Some (Disposable True None)"
        "\<forall>ms. lookup (disps w2) d = Some (Composite False ms) \<longrightarrow> n1 \<notin> set ms \<and> n2 \<in> set ms"
        by simp_all
      from 3 4 rl2 restore[OF 3(3)] show ?thesis
        unfolding f2 by simp
    qed
  qed
  from performAll_onePatch[OF loadModule_onePatch] perform_onePatch[OF assms(1)] 1 2
  show ?thesis by simp
qed

lemma demo_offset: "offsetSheet (styleSheets demo) (rules demo) = Inr (Some (1, demoRules ! 1))"
  by (simp add: demo_eval demoSheets_def demoRules_def lookup_def offsetSelector_def)

lemma demo_onePatch: "onePatch demo"
  by (simp add: onePatch_def restorers_def active_def demo_eval lookup_def upt_rec[of 0])

lemma demo_fixOffset:
  "snd (fixOffset demo) = demo\<lparr>
     restoreOffset := Some 3,
     disps := [Composite False [1, 2, 3], Disposable False (Some (HostOff 0)),
               Disposable False (Some (HostOff 1)),
               Disposable False (Some (RestoreTop 1 ''5px''))],
     rules := demoRules[1 := (demoRules ! 1)\<lparr>styleTop := []\<rparr>]\<rparr>"
  by (simp add: fixOffset_def demo_offset Let_def)
     (simp add: demo_eval installRestore_def newDisposable_def cd_add_def lookup_def demoRules_def
      Let_def)

theorem fixOffset_keeps_one_patch_witness:
  "onePatch demo \<and> disposables demo = Some 0
   \<and> offsetSheet (styleSheets demo) (rules demo) = Inr (Some (1, demoRules ! 1))
   \<and> offsetSheet (styleSheets (snd (fixOffset demo))) (rules (snd (fixOffset demo))) = Inr None
   \<and> demoPatched = snd (fixOffset demo)
   \<and> restorers demoPatched = [3] \<and> restoreOffset demoPatched = Some 3
   \<and> lookup (disps demoPatched) 3 = Some (Disposable False (Some (RestoreTop 1 ''5px'')))
   \<and> map_option styleTop (lookup (rules demoPatched) 1) = Some []
   \<and> map_option styleTop (lookup (rules (dispose 3 demoPatched)) 1) = Some ''5px''"
proof -
  have d: "disposables demo = Some 0" and n: "length (disps demo) = 3"
    by (simp_all add: demo_eval)
  have s2: "offsetSheet (styleSheets (snd (fixOffset demo))) (rules (snd (fixOffset demo))) = Inr None"
    unfolding demo_fixOffset
    by (simp add: demo_eval demoSheets_def demoRules_def lookup_def offsetSelector_def)
  have c: "map_option styleTop (lookup (rules (snd (fixOffset demo))) 1) = Some []"
    unfolding demo_fixOffset by (simp add: demoRules_def lookup_def)
  have t: "styleTop (demoRules ! 1) = ''5px''" by (simp add: demoRules_def)
  from fixOffset_keeps_one_patch[OF demo_onePatch d demo_offset refl refl refl refl,
      folded demoPatched_def]
  have "demoPatched = snd (fixOffset demo) \<and> restorers demoPatched = [3]
      \<and> restoreOffset demoPatched = Some 3
      \<and> lookup (disps demoPatched) 3 = Some (Disposable False (Some (RestoreTop 1 ''5px'')))
      \<and> map_option styleTop (lookup (rules (dispose 3 demoPatched)) 1) = Some ''5px''"
    unfolding s2 n t by simp
  with demo_onePatch d demo_offset s2 c show ?thesis by simp
qed

subsection \<open>Waiting for a new document to be saved\<close>

lemma dispatchAll_quiet:
  "list_all quiet hs \<Longrightarrow>
   dispatchAll hs v u = u\<lparr>queue := queue u @ deferrals hs v, trace := trace u @ calls hs v\<rparr>"
proof (induction hs arbitrary: u)
  case Nil
  then show ?case by simp
next
  case (Cons h hs)
  then show ?case by (cases h) simp_all
qed

lemma waitToSave_fields:
  assumes d: "disposables w = Some d" "lookup (disps w) d = Some (Composite False ms)"
    "list_all (\<lambda>r. r < length (disps w)) ms"
    and e: "lookup (emitters w) ed = Some eo" "\<not> e_disposed eo"
    and n: "n = length (disps w)" and p: "p = length (promises w)"
  shows "fst (waitToSave ed w) = p"
    and "promises (snd (waitToSave ed w)) = promises w @ [Pending]"
    and "emitters (snd (waitToSave ed w)) =
           (emitters w)[ed := eo\<lparr>handlersByEventName := (handlersByEventName eo)
             (''did-destroy'' := handlersByEventName eo ''did-destroy'' @ [ScopeDispose (n + 3)],
              ''did-change-path'' := handlersByEventName eo ''did-change-path'' @
                  [SaveResolve (n + 3) p])\<rparr>]"
    and "disps (snd (waitToSave ed w)) =
           ((disps w)[d := Composite False (ms @ [n + 3])]) @
             [Disposable False (Some (Detach (n + 3))),
              Disposable False (Some (Off ed ''did-destroy'' (ScopeDispose (n + 3)))),
              Disposable False (Some (Off ed ''did-change-path'' (SaveResolve (n + 3) p))),
              Composite False [n, n + 1, n + 2]]"
    and "disposables (snd (waitToSave ed w)) = Some d"
    and "trace (snd (waitToSave ed w)) = trace w"
    and "queue (snd (waitToSave ed w)) = queue w"
proof -
  have dl: "d < length (disps w)" "disps w ! d = Composite False ms"
    using d(2) by (auto simp: lookup_def split: if_splits)
  have el: "ed < length (emitters w)" "emitters w ! ed = eo"
    using e(1) by (auto simp: lookup_def split: if_splits)
  have fresh: "length (disps w) + 3 \<notin> set ms"
    using d(3) by (auto simp: list_all_iff)
  show "fst (waitToSave ed w) = p"
    and "promises (snd (waitToSave ed w)) = promises w @ [Pending]"
    and "emitters (snd (waitToSave ed w)) =
           (emitters w)[ed := eo\<lparr>handlersByEventName := (handlersByEventName eo)
             (''did-destroy'' := handlersByEventName eo ''did-destroy'' @ [ScopeDispose (n + 3)],
              ''did-change-path'' := handlersByEventName eo ''did-change-path'' @
                  [SaveResolve (n + 3) p])\<rparr>]"
    and "disps (snd (waitToSave ed w)) =
           ((disps w)[d := Composite False (ms @ [n + 3])]) @
             [Disposable False (Some (Detach (n + 3))),
              Disposable False (Some (Off ed ''did-destroy'' (ScopeDispose (n + 3)))),
              Disposable False (Some (Off ed ''did-change-path'' (SaveResolve (n + 3) p))),
              Composite False [n, n + 1, n + 2]]"
    and "disposables (snd (waitToSave ed w)) = Some d"
    and "trace (snd (waitToSave ed w)) = trace w"
    and "queue (snd (waitToSave ed w)) = queue w"
    using d(1) dl el e(2) fresh unfolding n p
    by (simp_all add: waitToSave_def onDidDestroy_def onDidChangePath_def emitter_on_def
        newDisposable_def newComposite_def cd_add_def lookup_def Let_def nth_append
        list_update_append numeral_3_eq_3)
qed

lemma quiet_not_scope:
  "list_all quiet hs \<Longrightarrow> ScopeDispose c \<notin> set hs \<and> SaveResolve c p \<notin> set hs"
  by (induction hs) auto

lemma scope_dispose:
  assumes x: "disposables X = Some d"
    and dd: "d < length D" "D ! d = Composite False ms" "length D + 3 \<notin> set ms"
    and dx: "disps X = (D[d := Composite False (ms @ [length D + 3])]) @
             [Disposable False (Some (Detach (length D + 3))),
              Disposable False (Some (Off ed ''did-destroy'' (ScopeDispose (length D + 3)))),
              Disposable False (Some (Off ed ''did-change-path'' (SaveResolve (length D + 3) p))),
              Composite False [length D, length D + 1, length D + 2]]"
    and ee: "ed < length E" "E ! ed = eo" "\<not> e_disposed eo"
      "list_all quiet (handlersByEventName eo ''did-destroy'')"
      "list_all quiet (handlersByEventName eo ''did-change-path'')"
    and ex: "emitters X = E[ed := eo\<lparr>handlersByEventName := (handlersByEventName eo)
             (''did-destroy'' := handlersByEventName eo ''did-destroy'' @ [ScopeDispose (length D + 3)],
              ''did-change-path'' := handlersByEventName eo ''did-change-path'' @
                  [SaveResolve (length D + 3) p])\<rparr>]"
  shows "disps (dispose (length D + 3) X) =
           D @ [Disposable True None, Disposable True None, Disposable True None, Composite True []]"
    and "emitters (dispose (length D + 3) X) = E"
proof -
  note q = quiet_not_scope[OF ee(4), of "length D + 3" p] quiet_not_scope[OF ee(5), of "length D + 3" p]
  have "disps (dispose (length D + 3) X) =
           D @ [Disposable True None, Disposable True None, Disposable True None, Composite True []]
      \<and> emitters (dispose (length D + 3) X) = E"
    using x dd dx ee(1,2,3) ex q
    by (simp add: dispose_def run.simps lookup_def nth_append Let_def cd_remove_def emitter_off_def
        list_update_append numeral_3_eq_3 remove1_append list_update_same_conv)
  then show "disps (dispose (length D + 3) X) =
           D @ [Disposable True None, Disposable True None, Disposable True None, Composite True []]"
    and "emitters (dispose (length D + 3) X) = E" by simp_all
qed

lemma dispatchAll_append:
  "dispatchAll (hs @ ks) v u = dispatchAll ks v (dispatchAll hs v u)"
  by (induction hs arbitrary: u) simp_all

lemma signal_quiet:
  assumes "lookup (emitters u) ed = Some eo"
    "list_all quiet (handlersByEventName eo ''did-destroy'')"
    "list_all quiet (handlersByEventName eo ''did-change-path'')"
    "signalOf ed x"
  shows "emitters (perform x u) = emitters u \<and> disps (perform x u) = disps u
       \<and> promises (perform x u) = promises u
       \<and> (handlersByEventName eo ''did-destroy'' = [] \<and> handlersByEventName eo ''did-change-path'' = []
            \<longrightarrow> perform x u = u)"
  using assms
  by (cases x) (simp_all add: pathChanged_def destroyed_def emitter_emit_def dispatchAll_quiet)

lemma signals_quiet:
  assumes "lookup (emitters u) ed = Some eo"
    "list_all quiet (handlersByEventName eo ''did-destroy'')"
    "list_all quiet (handlersByEventName eo ''did-change-path'')"
    "list_all (signalOf ed) ns"
  shows "emitters (performAll ns u) = emitters u \<and> disps (performAll ns u) = disps u
       \<and> promises (performAll ns u) = promises u
       \<and> (handlersByEventName eo ''did-destroy'' = [] \<and> handlersByEventName eo ''did-change-path'' = []
            \<longrightarrow> performAll ns u = u)"
  using assms
proof (induction ns arbitrary: u)
  case Nil
  then show ?case by simp
next
  case (Cons x ns)
  from Cons.prems have s: "signalOf ed x" "list_all (signalOf ed) ns" by simp_all
  note 1 = signal_quiet[OF Cons.prems(1,2,3) s(1)]
  from 1 Cons.prems(1) have "lookup (emitters (perform x u)) ed = Some eo" by simp
  from Cons.IH[OF this Cons.prems(2,3) s(2)] 1 show ?case by auto
qed

lemma waiter_fires:
  assumes d: "disposables w = Some d" "lookup (disps w) d = Some (Composite False ms)"
    "list_all (\<lambda>r. r < length (disps w)) ms"
    and e: "lookup (emitters w) ed = Some eo" "\<not> e_disposed eo"
    and q: "list_all quiet (handlersByEventName eo ''did-destroy'')"
           "list_all quiet (handlersByEventName eo ''did-change-path'')"
    and w1: "w1 = snd (waitToSave ed w)"
  shows "promises (pathChanged ed f w1) = promises w @ [Resolved (VStr f)]"
    and "promises (destroyed ed w1) = promises w @ [Pending]"
    and "disps (pathChanged ed f w1) =
           disps w @ [Disposable True None, Disposable True None, Disposable True None, Composite True []]"
    and "disps (destroyed ed w1) =
           disps w @ [Disposable True None, Disposable True None, Disposable True None, Composite True []]"
    and "emitters (pathChanged ed f w1) = emitters w"
    and "emitters (destroyed ed w1) = emitters w"
proof -
  note wf = waitToSave_fields[OF d e refl refl, folded w1]
  have dl: "d < length (disps w)" "disps w ! d = Composite False ms"
    using d(2) by (auto simp: lookup_def split: if_splits)
  have el: "ed < length (emitters w)" "emitters w ! ed = eo"
    using e(1) by (auto simp: lookup_def split: if_splits)
  have fresh: "length (disps w) + 3 \<notin> set ms"
    using d(3) by (auto simp: list_all_iff)
  have sd: "disps (dispose (length (disps w) + 3) X) =
           disps w @ [Disposable True None, Disposable True None, Disposable True None, Composite True []]
         \<and> emitters (dispose (length (disps w) + 3) X) = emitters w"
    if "disposables X = Some d" "disps X = disps w1" "emitters X = emitters w1" for X
    using scope_dispose[where p = "length (promises w)", OF that(1) dl fresh _ el e(2) q]
      that(2,3) wf(3,4)
    by simp
  define Xp where "Xp = dispatchAll (handlersByEventName eo ''did-change-path'') (VStr f) w1"
  define Xd where "Xd = dispatchAll (handlersByEventName eo ''did-destroy'') VUndefined w1"
  have xp: "disposables Xp = Some d" "disps Xp = disps w1" "emitters Xp = emitters w1"
    "promises Xp = promises w @ [Pending]"
    unfolding Xp_def dispatchAll_quiet[OF q(2)] using wf by simp_all
  have xd: "disposables Xd = Some d" "disps Xd = disps w1" "emitters Xd = emitters w1"
    "promises Xd = promises w @ [Pending]"
    unfolding Xd_def dispatchAll_quiet[OF q(1)] using wf by simp_all
  have pc: "pathChanged ed f w1 =
      resolve (length (promises w)) (VStr f) (dispose (length (disps w) + 3) Xp)"
    using el wf(3)
    by (simp add: pathChanged_def emitter_emit_def lookup_def dispatchAll_append firstArg_def Xp_def)
  have ds: "destroyed ed w1 = dispose (length (disps w) + 3) Xd"
    using el wf(3)
    by (simp add: destroyed_def emitter_emit_def lookup_def dispatchAll_append firstArg_def Xd_def)
  have pp: "promises (dispose r Xp) = promises w @ [Pending]"
           "promises (dispose r Xd) = promises w @ [Pending]" for r
    using xp(4) xd(4) by (simp_all add: dispose_frame)
  show "promises (pathChanged ed f w1) = promises w @ [Resolved (VStr f)]"
    unfolding pc by (simp add: resolve_def pp)
  show "promises (destroyed ed w1) = promises w @ [Pending]"
    unfolding ds by (simp add: pp)
  show "disps (pathChanged ed f w1) =
           disps w @ [Disposable True None, Disposable True None, Disposable True None, Composite True []]"
    unfolding pc using sd[OF xp(1,2,3)] by (simp add: resolve_def split: option.splits promise.splits)
  show "disps (destroyed ed w1) =
           disps w @ [Disposable True None, Disposable True None, Disposable True None, Composite True []]"
    unfolding ds using sd[OF xd(1,2,3)] by simp
  show "emitters (pathChanged ed f w1) = emitters w"
    unfolding pc using sd[OF xp(1,2,3)] by (simp add: resolve_def split: option.splits promise.splits)
  show "emitters (destroyed ed w1) = emitters w"
    unfolding ds using sd[OF xd(1,2,3)] by simp
qed

text \<open>
  C6: let \<^verbatim>\<open>waitToSave\<close> be called for a document whose emitter is live and holds, for the
  two signals, only handlers that are not closures of \<^verbatim>\<open>waitToSave\<close>, in a state whose set
  \<^verbatim>\<open>disposables\<close> is live and has members of the store only. Then the promise it returns
  is pending, and the new scope is a member of the set. The first "path changed"
  signal resolves the promise with the new path; it stays resolved with that path
  through every later sequence of signals of the document, which changes neither the
  promises nor the disposables nor the handlers (and nothing at all when the document
  has no handlers of its own). If "destroyed" comes first, the promise is pending
  after it and after every later sequence of signals. In both cases the scope and its
  three members are disposed, the set has the members it had before the call, and the
  document's emitter has the handlers it had before the call.
\<close>

theorem waitToSave_settles_once:
  assumes "disposables w = Some d" "lookup (disps w) d = Some (Composite False ms)"
    and "list_all (\<lambda>r. r < length (disps w)) ms"
    and "lookup (emitters w) ed = Some eo" "\<not> e_disposed eo"
    and "list_all quiet (handlersByEventName eo ''did-destroy'')"
    and "list_all quiet (handlersByEventName eo ''did-change-path'')"
    and "list_all (signalOf ed) ns"
    and "w1 = snd (waitToSave ed w)" "p = fst (waitToSave ed w)" "n = length (disps w)"
    and "saved = pathChanged ed f w1" "gone = destroyed ed w1"
  shows "lookup (promises w1) p = Some Pending
       \<and> lookup (disps w1) (n + 3) = Some (Composite False [n, n + 1, n + 2])
       \<and> lookup (disps w1) d = Some (Composite False (ms @ [n + 3]))
       \<and> lookup (promises saved) p = Some (Resolved (VStr f))
       \<and> lookup (promises (performAll ns saved)) p = Some (Resolved (VStr f))
       \<and> lookup (promises (performAll ns gone)) p = Some Pending
       \<and> disps saved =
            disps w @ [Disposable True None, Disposable True None, Disposable True None, Composite True []]
       \<and> disps gone = disps saved
       \<and> emitters saved = emitters w \<and> emitters gone = emitters w
       \<and> disps (performAll ns saved) = disps saved \<and> emitters (performAll ns saved) = emitters saved
       \<and> promises (performAll ns saved) = promises saved
       \<and> (handlersByEventName eo ''did-destroy'' = [] \<and> handlersByEventName eo ''did-change-path'' = []
            \<longrightarrow> performAll ns saved = saved)"
proof -
  note wf = waitToSave_fields[OF assms(1-5) assms(11) refl, folded assms(9)]
  note fire = waiter_fires[OF assms(1-7) assms(9), folded assms(13)]
  note fire1 = fire(1,3,5)[of f, folded assms(12)]
  have p: "p = length (promises w)" using wf(1) assms(10) by simp
  have dl: "d < length (disps w)"
    using assms(2) by (auto simp: lookup_def split: if_splits)
  have 1: "lookup (promises w1) p = Some Pending" unfolding p wf(2) by simp
  have 2: "lookup (disps w1) (n + 3) = Some (Composite False [n, n + 1, n + 2])"
    unfolding wf(4) using assms(11) by (simp add: lookup_def nth_append)
  have 3: "lookup (disps w1) d = Some (Composite False (ms @ [n + 3]))"
    unfolding wf(4) using dl by (simp add: lookup_def nth_append)
  have es: "lookup (emitters saved) ed = Some eo" "lookup (emitters gone) ed = Some eo"
    using fire1(3) fire(6) assms(4) by simp_all
  note s1 = signals_quiet[OF es(1) assms(6,7,8)]
  note s2 = signals_quiet[OF es(2) assms(6,7,8)]
  have 4: "lookup (promises saved) p = Some (Resolved (VStr f))"
    unfolding p fire1(1) by simp
  have 5: "lookup (promises (performAll ns saved)) p = Some (Resolved (VStr f))"
    using s1 4 by simp
  have 6: "lookup (promises (performAll ns gone)) p = Some Pending"
    using s2 unfolding p fire(2) by simp
  from 1 2 3 4 5 6 fire1(2,3) fire(4,6) s1 show ?thesis by simp
qed

lemma demoDoc_fields:
  "disposables demoDoc = Some 0" "lookup (disps demoDoc) 0 = Some (Composite False [1, 2])"
  "list_all (\<lambda>r. r < length (disps demoDoc)) [1, 2]"
  "lookup (emitters demoDoc) 1 = Some \<lparr>e_disposed = False, handlersByEventName = (\<lambda>_. [])(''did-destroy'' := [Fn 9])\<rparr>"
  "length (disps demoDoc) = 3" "promises demoDoc = []" "trace demoDoc = []"
  by (simp_all add: demoDoc_def demo_eval lookup_def)

theorem waitToSave_settles_once_witness:
  "disposables demoDoc = Some 0 \<and> lookup (disps demoDoc) 0 = Some (Composite False [1, 2])
   \<and> list_all (\<lambda>r. r < length (disps demoDoc)) [1, 2]
   \<and> lookup (emitters demoDoc) 1 =
        Some \<lparr>e_disposed = False, handlersByEventName = (\<lambda>_. [])(''did-destroy'' := [Fn 9])\<rparr>
   \<and> list_all (signalOf 1) [PathChanged 1 ''/g'', Destroyed 1]
   \<and> fst (waitToSave 1 demoDoc) = 0
   \<and> lookup (promises (snd (waitToSave 1 demoDoc))) 0 = Some Pending
   \<and> lookup (disps (snd (waitToSave 1 demoDoc))) 0 = Some (Composite False [1, 2, 6])
   \<and> lookup (promises (pathChanged 1 ''/f'' (snd (waitToSave 1 demoDoc)))) 0
        = Some (Resolved (VStr ''/f''))
   \<and> lookup (promises (performAll [PathChanged 1 ''/g'', Destroyed 1]
        (pathChanged 1 ''/f'' (snd (waitToSave 1 demoDoc))))) 0 = Some (Resolved (VStr ''/f''))
   \<and> lookup (promises (performAll [PathChanged 1 ''/g'', Destroyed 1]
        (destroyed 1 (snd (waitToSave 1 demoDoc))))) 0 = Some Pending
   \<and> disps (pathChanged 1 ''/f'' (snd (waitToSave 1 demoDoc))) =
        [Composite False [1, 2], Disposable False (Some (HostOff 0)),
         Disposable False (Some (HostOff 1)), Disposable True None, Disposable True None,
         Disposable True None, Composite True []]
   \<and> trace (destroyed 1 (snd (waitToSave 1 demoDoc))) = [Call 9 VUndefined]"
proof -
  have q: "\<not> e_disposed \<lparr>e_disposed = False, handlersByEventName = (\<lambda>_. [])(''did-destroy'' := [Fn 9])\<rparr>"
    "list_all quiet (handlersByEventName \<lparr>e_disposed = False, handlersByEventName = (\<lambda>_. [])(''did-destroy'' := [Fn 9])\<rparr> ''did-destroy'')"
    "list_all quiet (handlersByEventName \<lparr>e_disposed = False, handlersByEventName = (\<lambda>_. [])(''did-destroy'' := [Fn 9])\<rparr> ''did-change-path'')"
    by simp_all
  have s: "list_all (signalOf 1) [PathChanged 1 ''/g'', Destroyed 1]" by simp
  have t: "trace (destroyed 1 (snd (waitToSave 1 demoDoc))) = [Call 9 VUndefined]"
    using waitToSave_fields[OF demoDoc_fields(1,2,3,4) q(1) refl refl]
    by (simp add: destroyed_def emitter_emit_def lookup_def firstArg_def demoDoc_def demo_eval
        dispose_frame)
  have d: "disps demoDoc = [Composite False [1, 2], Disposable False (Some (HostOff 0)),
         Disposable False (Some (HostOff 1))]"
    by (simp add: demoDoc_def demo_eval)
  have p0: "fst (waitToSave 1 demoDoc) = 0"
    using waitToSave_fields(1)[OF demoDoc_fields(1,2,3,4) q(1) refl refl] demoDoc_fields(6)
    by simp
  from waitToSave_settles_once[where f = "''/f''", OF demoDoc_fields(1,2,3,4) q s refl refl refl refl refl]
  show ?thesis
    using demoDoc_fields s t unfolding d p0
    by simp
qed

subsection \<open>A hub without live emitter\<close>

lemma reset_teardown:
  "reset w =
     (let (d', w3) = newComposite [] (teardown w);
          w4 = w3\<lparr>disposables := Some d'\<rparr>;
          (e', w5) = newEmitter w4
      in w5\<lparr>emitter := Some e'\<rparr>)"
  by (simp add: reset_def teardown_def Let_def)


lemma flags_fields [simp]:
  "flags (w\<lparr>delayNext := x1\<rparr>) = flags w" "flags (w\<lparr>disposables := x2\<rparr>) = flags w"
  "flags (w\<lparr>projects := x3\<rparr>) = flags w" "flags (w\<lparr>lightTheme := x4\<rparr>) = flags w"
  "flags (w\<lparr>restoreOffset := x5\<rparr>) = flags w" "flags (w\<lparr>disps := x6\<rparr>) = flags w"
  "flags (w\<lparr>promises := x7\<rparr>) = flags w" "flags (w\<lparr>rules := x8\<rparr>) = flags w"
  "flags (w\<lparr>queue := x9\<rparr>) = flags w" "flags (w\<lparr>trace := x10\<rparr>) = flags w"
  "flags (w\<lparr>seen := x11\<rparr>) = flags w"
  by (simp_all add: flags_def)

lemma flags_handlers:
  "lookup (emitters w) e = Some eo \<Longrightarrow>
   flags (w\<lparr>emitters := (emitters w)[e := eo\<lparr>handlersByEventName := hs\<rparr>]\<rparr>) = flags w"
  by (auto simp: flags_def lookup_def map_update list_update_same_conv split: if_splits)

lemma flags_emitter_off [simp]: "flags (emitter_off e n h w) = flags w"
  by (simp add: emitter_off_def flags_handlers split: option.splits)

lemma flags_cd [simp]: "flags (cd_add c d w) = flags w" "flags (cd_remove c d w) = flags w"
  by (simp_all add: cd_add_def cd_remove_def split: option.splits dobj.splits bool.splits)

lemma flags_act [simp]: "flags (act a w) = flags w"
  by (cases a) (simp_all split: option.splits)

lemma flags_run [simp]: "flags (run k w) = flags w"
  by (rule run_invariant[where P = "\<lambda>u. flags u = flags w"]) simp_all

lemma flags_dispose [simp]: "flags (dispose r w) = flags w"
  by (simp add: dispose_def)

lemma flags_invoke [simp]: "flags (invoke h v w) = flags w"
  by (cases h) (simp_all add: resolve_def split: option.splits promise.splits)

lemma flags_dispatchAll [simp]: "flags (dispatchAll hs v w) = flags w"
  by (induction hs arbitrary: w) simp_all

lemma flags_emitter_emit [simp]: "flags (emitter_emit e n args w) = flags w"
  by (simp add: emitter_emit_def split: option.splits)

lemma flags_emit [simp]: "flags (emit n args w) = flags w"
  by (simp add: emit_def Let_def split: option.splits)

lemma flags_emitter_on [simp]: "flags (snd (emitter_on e n h w)) = flags w"
  by (simp add: emitter_on_def newDisposable_def flags_handlers Let_def split: option.splits)





lemma flags_installRestore [simp]: "flags (snd (installRestore r off u)) = flags u"
  by (simp add: installRestore_def newDisposable_def Let_def split: option.splits)


lemma flags_reject [simp]: "flags (reject p e w) = flags w"
  by (simp add: reject_def split: option.splits promise.splits)

















end
